theory Spec2Isabelle
  imports Complex_Main "HOL-Library.Sublist" "HOL-Library.Log_Nat"
begin

section \<open>Characters and the string methods of Python used by the pipeline\<close>

text \<open>
  A Python \<open>str\<close> is modelled as a \<open>string\<close>; a \<open>char\<close> stands for the code point of
  the same number, so the model covers texts over the code points 0 to 255 (ASCII and the
  Latin-1 supplement). The classifications below are Python's for these code points:
  \<open>str.isspace\<close> (which is also the class \<open>\s\<close> of a \<open>str\<close> pattern), \<open>str.isalnum\<close>
  (with \<open>_\<close> the class \<open>\w\<close>) and \<open>str.lower\<close>.
\<close>

definition isspace :: "char \<Rightarrow> bool" where
  "isspace c = (let n = (of_char c :: nat) in
     (9 \<le> n \<and> n \<le> 13) \<or> (28 \<le> n \<and> n \<le> 32) \<or> n = 133 \<or> n = 160)"

definition ascii_letter :: "char \<Rightarrow> bool" where
  \<comment> \<open>the class \<open>[a-zA-Z]\<close>\<close>
  "ascii_letter c = (let n = (of_char c :: nat) in
     (65 \<le> n \<and> n \<le> 90) \<or> (97 \<le> n \<and> n \<le> 122))"

definition isalnum :: "char \<Rightarrow> bool" where
  "isalnum c = (let n = (of_char c :: nat) in
     (48 \<le> n \<and> n \<le> 57) \<or> (65 \<le> n \<and> n \<le> 90) \<or> (97 \<le> n \<and> n \<le> 122) \<or>
     n = 170 \<or> n = 178 \<or> n = 179 \<or> n = 181 \<or> n = 185 \<or> n = 186 \<or>
     (188 \<le> n \<and> n \<le> 190) \<or> (192 \<le> n \<and> n \<le> 214) \<or> (216 \<le> n \<and> n \<le> 246) \<or>
     248 \<le> n)"

definition is_word :: "char \<Rightarrow> bool" where
  \<comment> \<open>the class \<open>\w\<close>\<close>
  "is_word c = (isalnum c \<or> c = CHR ''_'')"

definition lower_char :: "char \<Rightarrow> char" where
  "lower_char c = (let n = (of_char c :: nat) in
     if (65 \<le> n \<and> n \<le> 90) \<or> (192 \<le> n \<and> n \<le> 222 \<and> n \<noteq> 215)
     then char_of (n + 32) else c)"

definition lower :: "string \<Rightarrow> string" where
  \<comment> \<open>\<open>str.lower()\<close>\<close>
  "lower s = map lower_char s"

definition strip :: "string \<Rightarrow> string" where
  \<comment> \<open>\<open>str.strip()\<close>\<close>
  "strip s = rev (dropWhile isspace (rev (dropWhile isspace s)))"

text \<open>The maximal runs of characters of a class, left to right.\<close>

function runs :: "(char \<Rightarrow> bool) \<Rightarrow> string \<Rightarrow> string list" where
  "runs p [] = []"
| "runs p (c # cs) =
     (if p c then takeWhile p (c # cs) # runs p (dropWhile p cs) else runs p cs)"
  by pat_completeness auto
termination
  by (relation "measure (\<lambda>(p, s). length s)")
     (auto simp: le_imp_less_Suc length_dropWhile_le)

definition split_ws :: "string \<Rightarrow> string list" where
  \<comment> \<open>\<open>str.split()\<close> without arguments: the runs of non-whitespace characters\<close>
  "split_ws s = runs (\<lambda>c. \<not> isspace c) s"

section \<open>The fragment of Python's regular expressions used by the pipeline\<close>

text \<open>
  Every pattern of the program is a sequence of items, each a character class with a
  quantifier (none, \<open>?\<close>, greedy \<open>*\<close> and \<open>+\<close>, lazy \<open>*?\<close>) or the assertion \<open>\b\<close>.
  The matcher is the backtracking matcher of \<open>re\<close>: an item tries its possible lengths
  in its order of preference (longest first when greedy, shortest first when lazy), and
  the first length with which the rest of the pattern matches is taken. A match is
  reported as the number of characters each item consumed.
\<close>

datatype item =
    One "char \<Rightarrow> bool"
  | Opt "char \<Rightarrow> bool"
  | Star "char \<Rightarrow> bool"
  | Plus "char \<Rightarrow> bool"
  | Lazy "char \<Rightarrow> bool"
  | WordB

definition at_boundary :: "char option \<Rightarrow> string \<Rightarrow> bool" where
  \<comment> \<open>\<open>\b\<close>: the characters before and after the position differ in being word characters;
      beyond either end of the text there is no word character\<close>
  "at_boundary prev s =
     ((case prev of None \<Rightarrow> False | Some c \<Rightarrow> is_word c) \<noteq>
      (case s of [] \<Rightarrow> False | c # _ \<Rightarrow> is_word c))"

fun choices :: "item \<Rightarrow> char option \<Rightarrow> string \<Rightarrow> nat list" where
  "choices (One p) prev s = (case s of [] \<Rightarrow> [] | c # _ \<Rightarrow> if p c then [1] else [])"
| "choices (Opt p) prev s = (case s of [] \<Rightarrow> [0] | c # _ \<Rightarrow> if p c then [1, 0] else [0])"
| "choices (Star p) prev s = rev [0 ..< Suc (length (takeWhile p s))]"
| "choices (Plus p) prev s = rev [1 ..< Suc (length (takeWhile p s))]"
| "choices (Lazy p) prev s = [0 ..< Suc (length (takeWhile p s))]"
| "choices WordB prev s = (if at_boundary prev s then [0] else [])"

fun first_success :: "('a \<Rightarrow> 'b option) \<Rightarrow> 'a list \<Rightarrow> 'b option" where
  "first_success f [] = None"
| "first_success f (n # ns) = (case f n of Some r \<Rightarrow> Some r | None \<Rightarrow> first_success f ns)"

definition prev_after :: "char option \<Rightarrow> string \<Rightarrow> nat \<Rightarrow> char option" where
  \<comment> \<open>the character before the position reached by consuming \<open>n\<close> characters of \<open>s\<close>\<close>
  "prev_after prev s n = (if n = 0 then prev else Some (last (take n s)))"

primrec match_here :: "item list \<Rightarrow> char option \<Rightarrow> string \<Rightarrow> nat list option" where
  "match_here [] = (\<lambda>prev s. Some [])"
| "match_here (it # its) = (\<lambda>prev s.
     first_success
       (\<lambda>n. map_option ((#) n) (match_here its (prev_after prev s n) (drop n s)))
       (choices it prev s))"

text \<open>
  Scanning a text for the successive non-overlapping matches, as \<open>re.finditer\<close> does:
  at each position the pattern is tried; a match is recorded and the scan resumes after
  it, otherwise the character is passed over. No pattern of the program can match the
  empty string, and the scan reports no empty match.
\<close>

datatype piece = Chr char | Hit string "nat list"

function re_scan :: "item list \<Rightarrow> char option \<Rightarrow> string \<Rightarrow> piece list" where
  "re_scan its prev [] = []"
| "re_scan its prev (c # cs) =
     (case match_here its prev (c # cs) of
        None \<Rightarrow> Chr c # re_scan its (Some c) cs
      | Some ns \<Rightarrow>
          if sum_list ns = 0 then Chr c # re_scan its (Some c) cs
          else Hit (take (sum_list ns) (c # cs)) ns #
               re_scan its (Some (last (take (sum_list ns) (c # cs)))) (drop (sum_list ns) (c # cs)))"
  by pat_completeness auto
termination
  by (relation "measure (\<lambda>(its, prev, s). length s)")
     (auto dest!: member_le_sum_list)

fun substitute :: "string \<Rightarrow> piece list \<Rightarrow> string" where
  "substitute repl [] = []"
| "substitute repl (Chr c # ps) = c # substitute repl ps"
| "substitute repl (Hit m ns # ps) = repl @ substitute repl ps"

definition re_sub :: "item list \<Rightarrow> string \<Rightarrow> string \<Rightarrow> string" where
  \<comment> \<open>\<open>re.sub(pattern, repl, s)\<close> for a replacement without group references\<close>
  "re_sub its repl s = substitute repl (re_scan its None s)"

fun hits :: "piece list \<Rightarrow> string list" where
  "hits [] = []"
| "hits (Chr c # ps) = hits ps"
| "hits (Hit m ns # ps) = m # hits ps"

definition re_findall :: "item list \<Rightarrow> string \<Rightarrow> string list" where
  \<comment> \<open>\<open>re.findall(pattern, s)\<close> for a pattern without groups: the matched texts\<close>
  "re_findall its s = hits (re_scan its None s)"

definition group_text :: "nat \<Rightarrow> string \<Rightarrow> nat list \<Rightarrow> string" where
  \<comment> \<open>the text consumed by item number \<open>k\<close> of a match\<close>
  "group_text k m ns = take (ns ! k) (drop (sum_list (take k ns)) m)"

fun groups :: "nat \<Rightarrow> piece list \<Rightarrow> string list" where
  "groups k [] = []"
| "groups k (Chr c # ps) = groups k ps"
| "groups k (Hit m ns # ps) = group_text k m ns # groups k ps"

definition re_findall_group :: "item list \<Rightarrow> nat \<Rightarrow> string \<Rightarrow> string list" where
  \<comment> \<open>\<open>re.findall(pattern, s)\<close> for a pattern whose one group is item number \<open>k\<close>\<close>
  "re_findall_group its k s = groups k (re_scan its None s)"

fun split_pieces :: "piece list \<Rightarrow> string list" where
  "split_pieces [] = [[]]"
| "split_pieces (Chr c # ps) = (c # hd (split_pieces ps)) # tl (split_pieces ps)"
| "split_pieces (Hit m ns # ps) = [] # split_pieces ps"

definition re_split :: "item list \<Rightarrow> string \<Rightarrow> string list" where
  \<comment> \<open>\<open>re.split(pattern, s)\<close> for a pattern without groups: the texts between the matches\<close>
  "re_split its s = split_pieces (re_scan its None s)"

definition lit :: "string \<Rightarrow> item list" where
  \<comment> \<open>a literal text under \<open>re.IGNORECASE\<close> (the pattern's letters are lower-case)\<close>
  "lit s = map (\<lambda>c. One (\<lambda>x. lower_char x = c)) s"

section \<open>Numbers\<close>

text \<open>
  A Python \<open>float\<close> is a binary floating-point number with 53 significant bits; it is
  modelled by the rational number it denotes. \<open>float_of x\<close> is the float nearest to the
  number \<open>x\<close>, a tie going to the even significand: the result of every arithmetic
  operation on floats, of the division of two integers and of a decimal literal is the
  float nearest to the exact result. \<open>round(x, n)\<close> of a float \<open>x\<close> rounds the number
  that \<open>x\<close> denotes to \<open>n\<close> decimals, a tie going to the even neighbour, and returns the
  float nearest to that decimal. The exponent range of the floats is not modelled (no
  overflow, no subnormal numbers).
\<close>

definition round_half_even :: "rat \<Rightarrow> int" where
  "round_half_even x = (let f = \<lfloor>x\<rfloor>; d = x - of_int f in
     if d < 1 / 2 then f else if 1 / 2 < d then f + 1 else if even f then f else f + 1)"

definition pow2 :: "int \<Rightarrow> rat" where
  "pow2 k = (if 0 \<le> k then 2 ^ nat k else 1 / 2 ^ nat (- k))"

definition ilog2 :: "rat \<Rightarrow> int" where
  \<comment> \<open>for a positive \<open>x\<close>, the exponent \<open>e\<close> with \<open>2\<^sup>e \<le> x < 2\<^sup>e\<^sup>+\<^sup>1\<close>\<close>
  "ilog2 x = (let (p, q) = quotient_of x; d = bitlen p - bitlen q
              in if pow2 d \<le> x then d else d - 1)"

definition float_of :: "rat \<Rightarrow> rat" where
  "float_of x = (if x = 0 then 0
     else (let ulp = pow2 (ilog2 \<bar>x\<bar> - 52)
           in sgn x * of_int (round_half_even (\<bar>x\<bar> / ulp)) * ulp))"

definition float_div :: "rat \<Rightarrow> rat \<Rightarrow> rat" where
  "float_div a b = float_of (a / b)"

definition float_mul :: "rat \<Rightarrow> rat \<Rightarrow> rat" where
  "float_mul a b = float_of (a * b)"

definition float_sub :: "rat \<Rightarrow> rat \<Rightarrow> rat" where
  "float_sub a b = float_of (a - b)"

definition py_round :: "rat \<Rightarrow> nat \<Rightarrow> rat" where
  \<comment> \<open>\<open>round(x, n)\<close> for the float nearest to \<open>x\<close>\<close>
  "py_round x n = float_of (of_int (round_half_even (float_of x * 10 ^ n)) / 10 ^ n)"

section \<open>The processor (\<open>problem3/processor/process.py\<close>)\<close>

subsection \<open>\<open>strip_html\<close>\<close>

definition script_pattern :: "item list" where
  \<comment> \<open>\<open><script[^>]*>.*?</script>\<close> with \<open>re.DOTALL | re.IGNORECASE\<close>\<close>
  "script_pattern =
     lit ''<script'' @ [Star (\<lambda>c. c \<noteq> CHR ''>'')] @ lit ''>'' @ [Lazy (\<lambda>c. True)] @ lit ''</script>''"

definition style_pattern :: "item list" where
  \<comment> \<open>\<open><style[^>]*>.*?</style>\<close> with \<open>re.DOTALL | re.IGNORECASE\<close>\<close>
  "style_pattern =
     lit ''<style'' @ [Star (\<lambda>c. c \<noteq> CHR ''>'')] @ lit ''>'' @ [Lazy (\<lambda>c. True)] @ lit ''</style>''"

definition quote :: "char \<Rightarrow> bool" where
  \<comment> \<open>the class \<open>['"]\<close>\<close>
  "quote c = (c = CHR 0x27 \<or> c = CHR 0x22)"

definition value_char :: "char \<Rightarrow> bool" where
  \<comment> \<open>the class \<open>[^'" >]\<close>\<close>
  "value_char c = (c \<noteq> CHR 0x27 \<and> c \<noteq> CHR 0x22 \<and> c \<noteq> CHR '' '' \<and> c \<noteq> CHR ''>'')"

definition href_pattern :: "item list" where
  \<comment> \<open>\<open>href=['"]?([^'" >]+)\<close> with \<open>re.IGNORECASE\<close>; the group is item 6\<close>
  "href_pattern = lit ''href='' @ [Opt quote, Plus value_char]"

definition src_pattern :: "item list" where
  \<comment> \<open>\<open>src=['"]?([^'" >]+)\<close> with \<open>re.IGNORECASE\<close>; the group is item 5\<close>
  "src_pattern = lit ''src='' @ [Opt quote, Plus value_char]"

definition tag_pattern :: "item list" where
  \<comment> \<open>\<open><[^>]+>\<close>\<close>
  "tag_pattern = [One (\<lambda>c. c = CHR ''<''), Plus (\<lambda>c. c \<noteq> CHR ''>''), One (\<lambda>c. c = CHR ''>'')]"

definition whitespace_pattern :: "item list" where
  \<comment> \<open>\<open>\s+\<close>\<close>
  "whitespace_pattern = [Plus isspace]"

definition strip_html :: "string \<Rightarrow> string \<times> string list \<times> string list" where
  "strip_html html_content =
     (let html_content = re_sub script_pattern [] html_content;
          html_content = re_sub style_pattern [] html_content;
          links = re_findall_group href_pattern 6 html_content;
          images = re_findall_group src_pattern 5 html_content;
          text = re_sub tag_pattern '' '' html_content;
          text = strip (re_sub whitespace_pattern '' '' text)
      in (text, links, images))"

subsection \<open>\<open>count_statistics\<close>\<close>

record statistics =
  st_word_count :: nat
  st_sentence_count :: nat
  st_paragraph_count :: nat
  st_avg_word_length :: rat

definition sentence_pattern :: "item list" where
  \<comment> \<open>\<open>[.!?]+\<close>\<close>
  "sentence_pattern = [Plus (\<lambda>c. c = CHR ''.'' \<or> c = CHR ''!'' \<or> c = CHR ''?'')]"

definition paragraph_pattern :: "item list" where
  \<comment> \<open>\<open>\n\s*\n\<close>\<close>
  "paragraph_pattern = [One (\<lambda>c. c = CHR 0x0A), Star isspace, One (\<lambda>c. c = CHR 0x0A)]"

definition count_statistics :: "string \<Rightarrow> statistics" where
  "count_statistics text =
     (let words = filter (\<lambda>word. strip word \<noteq> []) (split_ws text);
          word_count = length words;
          sentences = re_split sentence_pattern text;
          sentences = map strip (filter (\<lambda>s. strip s \<noteq> []) sentences);
          sentence_count = length sentences;
          paragraphs = re_split paragraph_pattern text;
          paragraphs = map strip (filter (\<lambda>p. strip p \<noteq> []) paragraphs);
          paragraph_count = length paragraphs;
          avg_word_length =
            (if word_count > 0
             then float_div (of_nat (sum_list (map length words))) (of_nat word_count)
             else 0)
      in \<lparr>st_word_count = word_count, st_sentence_count = sentence_count,
          st_paragraph_count = paragraph_count, st_avg_word_length = py_round avg_word_length 2\<rparr>)"

subsection \<open>Files\<close>

text \<open>
  The keys of the JSON objects become record fields, with a prefix for the object they
  belong to. The shared storage area is modelled by its directories: the raw documents by name
  (\<open>/shared/raw/<name>\<close>, each with its text as decoded by \<open>open\<close> with
  \<open>errors='ignore'\<close>), the processed documents by name (\<open>/shared/processed/<name>\<close>) and
  the three files with fixed paths. A JSON file is represented by the value it
  encodes (\<open>json.dump\<close> followed by \<open>json.load\<close> gives the value back); a file that a
  failed write left incomplete is \<open>Truncated\<close>, and \<open>json.load\<close> raises on it.
  Writing an output file can fail in two ways, given by the environment for each file
  name: \<open>open\<close> raises and the file system is unchanged, or \<open>open\<close> creates the file and
  \<open>json.dump\<close> raises before the document is fully written. The creation of the
  directories and the log lines are not modelled.
\<close>

record processed_document =
  doc_source_file :: string
  doc_text :: string
  doc_statistics :: statistics
  doc_links :: "string list"
  doc_images :: "string list"
  doc_processed_at :: string

datatype processed_file = Complete processed_document | Truncated

datatype write_fault = OpenFails | DumpFails

record fetch_item =
  fetch_file :: string
  fetch_status :: string

record item_result =
  res_source_file :: string
  res_output_file :: string
  res_status :: string
  res_counts :: "(nat \<times> nat \<times> nat) option"
    \<comment> \<open>\<open>word_count\<close>, \<open>link_count\<close>, \<open>image_count\<close>: present on success only\<close>

record process_status =
  ps_timestamp :: string
  ps_files_processed :: nat
  ps_successful :: nat
  ps_failed :: nat
  ps_results :: "item_result list"

record similarity_entry =
  sim_doc1 :: string
  sim_doc2 :: string
  sim_similarity :: rat

record readability =
  rd_avg_sentence_length :: rat
  rd_avg_word_length :: rat
  rd_complexity_score :: rat

record final_report =
  rep_processing_timestamp :: string
  rep_documents_processed :: nat
  rep_total_words :: nat
  rep_unique_words :: nat
  rep_top_100_words :: "(string \<times> nat \<times> rat) list"
  rep_document_similarity :: "similarity_entry list"
  rep_top_bigrams :: "(string \<times> nat) list"
  rep_readability :: readability

record world =
  raw :: "string \<rightharpoonup> string"
  processed :: "string \<rightharpoonup> processed_file"
  fetch_complete :: "fetch_item list option"
  process_complete :: "process_status option"
  report :: "final_report option"
  clock :: string
  write_fault :: "string \<Rightarrow> write_fault option"
  status_write_fails :: bool
  report_write_fails :: bool

datatype py_error = OSError

subsection \<open>\<open>process_html_file\<close>\<close>

definition basename :: "string \<Rightarrow> string" where
  \<comment> \<open>\<open>os.path.basename\<close>: what follows the last \<open>/\<close> of the path\<close>
  "basename path = rev (takeWhile (\<lambda>c. c \<noteq> CHR ''/'') (rev path))"

definition process_html_file :: "world \<Rightarrow> string \<Rightarrow> string \<Rightarrow> processed_document option \<times> world" where
  \<comment> \<open>the arguments are the names of the raw file and of the output file; every exception
      of the body is caught and turned into \<open>None\<close>\<close>
  "process_html_file w source_file output_file =
     (case raw w source_file of
        None \<Rightarrow> (None, w)
      | Some html_content \<Rightarrow>
          (let (text, links, images) = strip_html html_content;
               statistics = count_statistics text;
               result = \<lparr>doc_source_file = basename (''/shared/raw/'' @ source_file),
                         doc_text = text,
                         doc_statistics = statistics, doc_links = links, doc_images = images,
                         doc_processed_at = clock w\<rparr>
           in case write_fault w output_file of
                Some OpenFails \<Rightarrow> (None, w)
              | Some DumpFails \<Rightarrow> (None, w\<lparr>processed := (processed w)(output_file \<mapsto> Truncated)\<rparr>)
              | None \<Rightarrow> (Some result, w\<lparr>processed := (processed w)(output_file \<mapsto> Complete result)\<rparr>)))"

subsection \<open>\<open>main\<close>\<close>

function str_replace :: "string \<Rightarrow> string \<Rightarrow> string \<Rightarrow> string" where
  \<comment> \<open>\<open>s.replace(old, new)\<close> for a non-empty \<open>old\<close>\<close>
  "str_replace old new [] = []"
| "str_replace old new (c # cs) =
     (if old \<noteq> [] \<and> prefix old (c # cs)
      then new @ str_replace old new (drop (length old) (c # cs))
      else c # str_replace old new cs)"
  by pat_completeness auto
termination
  by (relation "measure (\<lambda>(old, new, s). length s)") auto

definition sleep :: "world \<Rightarrow> world" where
  \<comment> \<open>\<open>time.sleep(2)\<close>: no other process is modelled, so the files stay as they are\<close>
  "sleep w = w"

partial_function (option) poll :: "(world \<Rightarrow> bool) \<Rightarrow> world \<Rightarrow> world option" where
  \<comment> \<open>\<open>while not os.path.exists(f): time.sleep(2)\<close>; \<open>None\<close> when the loop never ends\<close>
  "poll exists w = (if exists w then Some w else poll exists (sleep w))"

fun process_all :: "world \<Rightarrow> fetch_item list \<Rightarrow> item_result list \<Rightarrow> item_result list \<times> world" where
  \<comment> \<open>the loop over \<open>successful_files\<close>, with the list \<open>results\<close> built so far\<close>
  "process_all w [] results = (results, w)"
| "process_all w (result # rest) results =
     (let source_file = fetch_file result;
          output_file = str_replace ''.html'' ''.json'' source_file;
          (processed_result, w') = process_html_file w source_file output_file
      in case processed_result of
           Some d \<Rightarrow>
             process_all w' rest (results @
               [\<lparr>res_source_file = source_file, res_output_file = output_file,
                 res_status = ''success'',
                 res_counts = Some (st_word_count (doc_statistics d), length (doc_links d),
                                    length (doc_images d))\<rparr>])
         | None \<Rightarrow>
             process_all w' rest (results @
               [\<lparr>res_source_file = source_file, res_output_file = output_file,
                 res_status = ''failed'', res_counts = None\<rparr>]))"

definition processor_main :: "world \<Rightarrow> (py_error + world) option" where
  \<comment> \<open>\<open>None\<close>: waits for ever; \<open>Some (Inl e)\<close>: raises \<open>e\<close>; \<open>Some (Inr w)\<close>: returns in \<open>w\<close>\<close>
  "processor_main w0 =
     (case poll (\<lambda>w. fetch_complete w \<noteq> None) w0 of
        None \<Rightarrow> None
      | Some w \<Rightarrow>
          (case fetch_complete w of
             None \<Rightarrow> Some (Inl OSError)
           | Some fetch_results \<Rightarrow>
               (let successful_files = filter (\<lambda>r. fetch_status r = ''success'') fetch_results;
                    (results, w') = process_all w successful_files [];
                    status = \<lparr>ps_timestamp = clock w',
                              ps_files_processed = length results,
                              ps_successful = length (filter (\<lambda>r. res_status r = ''success'') results),
                              ps_failed = length (filter (\<lambda>r. res_status r = ''failed'') results),
                              ps_results = results\<rparr>
                in if status_write_fails w' then Some (Inl OSError)
                   else Some (Inr (w'\<lparr>process_complete := Some status\<rparr>)))))"

section \<open>The analyzer (\<open>problem3/analyzer/analyze.py\<close>)\<close>

definition jaccard_similarity :: "string list \<Rightarrow> string list \<Rightarrow> rat" where
  "jaccard_similarity doc1_words doc2_words =
     (let set1 = set doc1_words;
          set2 = set doc2_words;
          intersection = set1 \<inter> set2;
          union = set1 \<union> set2
      in if union \<noteq> {} then of_nat (card intersection) / of_nat (card union) else 0)"

definition word_pattern :: "item list" where
  \<comment> \<open>\<open>\b[a-zA-Z]+\b\<close>\<close>
  "word_pattern = [WordB, Plus ascii_letter, WordB]"

definition tokenize_text :: "string \<Rightarrow> string list" where
  "tokenize_text text = re_findall word_pattern (lower text)"

fun join :: "string \<Rightarrow> string list \<Rightarrow> string" where
  \<comment> \<open>\<open>sep.join(xs)\<close>\<close>
  "join sep [] = []"
| "join sep [x] = x"
| "join sep (x # y # ys) = x @ sep @ join sep (y # ys)"

definition extract_ngrams :: "string list \<Rightarrow> nat \<Rightarrow> string list" where
  "extract_ngrams words n =
     (if length words < n then []
      else map (\<lambda>i. join '' '' (take n (drop i words))) [0 ..< length words - n + 1])"

definition vowel :: "char \<Rightarrow> bool" where
  \<comment> \<open>the class \<open>[aeiouy]\<close>\<close>
  "vowel c = (c \<in> set ''aeiouy'')"

definition vowel_pattern :: "item list" where
  \<comment> \<open>\<open>[aeiouy]+\<close>\<close>
  "vowel_pattern = [Plus vowel]"

definition syllable_count :: "string \<Rightarrow> nat" where
  "syllable_count word =
     (let syllable_count = length (re_findall vowel_pattern word)
      in if syllable_count = 0 then 1 else syllable_count)"

fun readability_totals :: "string list \<Rightarrow> nat \<times> nat \<times> nat \<times> nat \<Rightarrow> nat \<times> nat \<times> nat \<times> nat" where
  \<comment> \<open>the loop over \<open>all_texts\<close>; the state is
      \<open>(total_sentences, total_words, total_syllables, total_chars)\<close>\<close>
  "readability_totals [] totals = totals"
| "readability_totals (text # texts) (total_sentences, total_words, total_syllables, total_chars) =
     (let sentences = re_split sentence_pattern text;
          sentences = map strip (filter (\<lambda>s. strip s \<noteq> []) sentences);
          words = tokenize_text text
      in readability_totals texts
           (total_sentences + length sentences,
            total_words + length words,
            total_syllables + sum_list (map syllable_count words),
            total_chars + sum_list (map length words)))"

definition readability_values :: "string list \<Rightarrow> rat \<times> rat \<times> rat" where
  \<comment> \<open>the body of \<open>calculate_readability_metrics\<close> up to its \<open>return\<close>: the values of
      \<open>avg_sentence_length\<close>, \<open>avg_word_length\<close> and \<open>complexity_score\<close>\<close>
  "readability_values all_texts =
     (let (total_sentences, total_words, total_syllables, total_chars) =
            readability_totals all_texts (0, 0, 0, 0);
          avg_sentence_length =
            (if total_sentences > 0
             then float_div (of_nat total_words) (of_nat total_sentences) else 0);
          avg_word_length =
            (if total_words > 0 then float_div (of_nat total_chars) (of_nat total_words) else 0);
          avg_syllables_per_word =
            (if total_words > 0
             then float_div (of_nat total_syllables) (of_nat total_words) else 0);
          complexity_score =
            (if avg_sentence_length > 0 \<and> avg_syllables_per_word > 0
             then float_sub
                    (float_sub (float_of 206.835) (float_mul (float_of 1.015) avg_sentence_length))
                    (float_mul (float_of 84.6) avg_syllables_per_word)
             else 0)
      in (avg_sentence_length, avg_word_length, complexity_score))"

definition calculate_readability_metrics :: "string list \<Rightarrow> readability" where
  "calculate_readability_metrics all_texts =
     (let (avg_sentence_length, avg_word_length, complexity_score) =
            readability_values all_texts
      in \<lparr>rd_avg_sentence_length = py_round avg_sentence_length 2,
          rd_avg_word_length = py_round avg_word_length 2,
          rd_complexity_score = py_round complexity_score 2\<rparr>)"

text \<open>
  A \<open>Counter\<close> is an association list in the order in which the keys were first counted;
  \<open>most_common(n)\<close> sorts by decreasing count, keys of equal count staying in that order.
\<close>

fun counter_add :: "string \<Rightarrow> (string \<times> nat) list \<Rightarrow> (string \<times> nat) list" where
  "counter_add k [] = [(k, 1)]"
| "counter_add k ((k', v) # kvs) = (if k = k' then (k', v + 1) # kvs else (k', v) # counter_add k kvs)"

definition counter_update :: "(string \<times> nat) list \<Rightarrow> string list \<Rightarrow> (string \<times> nat) list" where
  "counter_update counter keys = fold counter_add keys counter"

definition most_common :: "nat \<Rightarrow> (string \<times> nat) list \<Rightarrow> (string \<times> nat) list" where
  "most_common n counter = take n (sort_key (\<lambda>(k, v). - int v) counter)"

record document_data =
  dd_filename :: string
  dd_words :: "string list"
  dd_word_count :: nat

record corpus_data =
  cd_all_words :: "string list"
  cd_all_texts :: "string list"
  cd_word_frequency :: "(string \<times> nat) list"
  cd_bigram_frequency :: "(string \<times> nat) list"
  cd_trigram_frequency :: "(string \<times> nat) list"
  cd_documents_data :: "document_data list"

fun analyze_loop :: "world \<Rightarrow> item_result list \<Rightarrow> corpus_data \<Rightarrow> corpus_data" where
  \<comment> \<open>the loop of \<open>analyze_corpus\<close>; a file that cannot be opened or parsed is passed over\<close>
  "analyze_loop w [] acc = acc"
| "analyze_loop w (file_info # rest) acc =
     (if res_status file_info = ''success'' then
        (case processed w (res_output_file file_info) of
           Some (Complete data) \<Rightarrow>
             (let text = doc_text data;
                  words = tokenize_text text;
                  bigrams = extract_ngrams words 2;
                  trigrams = extract_ngrams words 3
              in analyze_loop w rest
                   \<lparr>cd_all_words = cd_all_words acc @ words,
                    cd_all_texts = cd_all_texts acc @ [text],
                    cd_word_frequency = counter_update (cd_word_frequency acc) words,
                    cd_bigram_frequency = counter_update (cd_bigram_frequency acc) bigrams,
                    cd_trigram_frequency = counter_update (cd_trigram_frequency acc) trigrams,
                    cd_documents_data = cd_documents_data acc @
                      [\<lparr>dd_filename = res_output_file file_info, dd_words = words,
                        dd_word_count = length words\<rparr>]\<rparr>)
         | _ \<Rightarrow> analyze_loop w rest acc)
      else analyze_loop w rest acc)"

definition analyze_corpus :: "world \<Rightarrow> item_result list \<Rightarrow> corpus_data" where
  "analyze_corpus w processed_files =
     analyze_loop w processed_files
       \<lparr>cd_all_words = [], cd_all_texts = [], cd_word_frequency = [], cd_bigram_frequency = [],
        cd_trigram_frequency = [], cd_documents_data = []\<rparr>"

definition calculate_document_similarities :: "document_data list \<Rightarrow> similarity_entry list" where
  "calculate_document_similarities docs =
     concat (map (\<lambda>i.
       map (\<lambda>j. \<lparr>sim_doc1 = dd_filename (docs ! i), sim_doc2 = dd_filename (docs ! j),
                 sim_similarity =
                   py_round (jaccard_similarity (dd_words (docs ! i)) (dd_words (docs ! j))) 4\<rparr>)
           [i + 1 ..< length docs])
       [0 ..< length docs])"

definition analyzer_main :: "world \<Rightarrow> (py_error + world) option" where
  "analyzer_main w0 =
     (case poll (\<lambda>w. process_complete w \<noteq> None) w0 of
        None \<Rightarrow> None
      | Some w \<Rightarrow>
          (case process_complete w of
             None \<Rightarrow> Some (Inl OSError)
           | Some process_status \<Rightarrow>
               (let successful_files =
                      filter (\<lambda>r. res_status r = ''success'') (ps_results process_status)
                in if successful_files = [] then Some (Inr w)
                   else
                     (let corpus = analyze_corpus w successful_files;
                          similarities = calculate_document_similarities (cd_documents_data corpus);
                          readability = calculate_readability_metrics (cd_all_texts corpus);
                          total_words = length (cd_all_words corpus);
                          top_100_words =
                            map (\<lambda>(word, count).
                                   (word, count,
                                    py_round (if total_words > 0
                                              then float_div (of_nat count) (of_nat total_words)
                                              else 0) 4))
                                (most_common 100 (cd_word_frequency corpus));
                          top_bigrams = most_common 20 (cd_bigram_frequency corpus);
                          final_report =
                            \<lparr>rep_processing_timestamp = clock w,
                             rep_documents_processed = length successful_files,
                             rep_total_words = total_words,
                             rep_unique_words = length (cd_word_frequency corpus),
                             rep_top_100_words = top_100_words,
                             rep_document_similarity = similarities,
                             rep_top_bigrams = top_bigrams,
                             rep_readability = readability\<rparr>
                      in if report_write_fails w then Some (Inl OSError)
                         else Some (Inr (w\<lparr>report := Some final_report\<rparr>))))))"

section \<open>Descriptions of the results\<close>

text \<open>
  The definitions of this section are not taken from the code: they describe results in
  the terms of the specification, and the theorems below compare them with the code.
\<close>

definition word_before :: "char option \<Rightarrow> bool" where
  \<comment> \<open>whether the character before a position, if any, is a word character\<close>
  "word_before prev = (case prev of None \<Rightarrow> False | Some c \<Rightarrow> is_word c)"

definition alphabetic_words :: "string \<Rightarrow> string list" where
  \<comment> \<open>the maximal runs of word characters (letters, digits, underscore) that consist of
      the letters \<open>a\<close> to \<open>z\<close> and \<open>A\<close> to \<open>Z\<close> only, in the order of the text\<close>
  "alphabetic_words s = filter (list_all ascii_letter) (runs is_word s)"

fun no_tag :: "string \<Rightarrow> bool" where
  \<comment> \<open>no \<open><\<close> is followed by one or more characters other than \<open>>\<close> and then by \<open>>\<close>\<close>
  "no_tag [] = True"
| "no_tag (c # cs) =
     ((c = CHR ''<'' \<longrightarrow> cs = [] \<or> hd cs = CHR ''>'' \<or> CHR ''>'' \<notin> set cs) \<and> no_tag cs)"

definition reads :: "string \<Rightarrow> string \<Rightarrow> bool" where
  \<comment> \<open>the text \<open>s\<close> begins with the lower-case text \<open>pat\<close>, written in any letter case\<close>
  "reads pat s = (lower (take (length pat) s) = pat)"

function attribute_values :: "string \<Rightarrow> string \<Rightarrow> string list" where
  \<comment> \<open>the values given to the attribute \<open>name\<close>, from left to right: where the text reads
      \<open>name=\<close>, then possibly one quote character, then at least one character other
      than a quote, a space and \<open>>\<close>, the value is the longest run of such characters, and
      the search goes on behind it\<close>
  "attribute_values name [] = []"
| "attribute_values name (c # cs) =
     (let r = drop (length name + 1) (c # cs);
          r = (if r \<noteq> [] \<and> quote (hd r) then tl r else r)
      in if reads (name @ ''='') (c # cs) \<and> takeWhile value_char r \<noteq> []
         then takeWhile value_char r # attribute_values name (dropWhile value_char r)
         else attribute_values name cs)"
  by pat_completeness auto
termination
proof (relation "measure (\<lambda>(name, s). length s)")
  fix name :: string and c :: char and cs r ra :: string
  assume r: "r = drop (length name + 1) (c # cs)"
    and ra: "ra = (if r \<noteq> [] \<and> quote (hd r) then tl r else r)"
  have "length (dropWhile value_char ra) \<le> length ra"
    by (rule length_dropWhile_le)
  also have "length ra \<le> length r"
    using ra by simp
  also have "length r < length (c # cs)"
    using r by simp
  finally show "((name, dropWhile value_char ra), (name, c # cs)) \<in> measure (\<lambda>(name, s). length s)"
    by simp
qed simp_all

fun find_first :: "string \<Rightarrow> string \<Rightarrow> nat option" where
  \<comment> \<open>the number of characters before the first place where the text reads \<open>pat\<close>\<close>
  "find_first pat [] = None"
| "find_first pat (c # cs) =
     (if reads pat (c # cs) then Some 0 else map_option Suc (find_first pat cs))"

definition block_length :: "string \<Rightarrow> string \<Rightarrow> nat option" where
  \<comment> \<open>the length of the block of the element \<open>name\<close> with which a text begins, if it begins
      with one: the block is \<open><name\<close>, the text up to the next \<open>>\<close> and that \<open>>\<close>, and
      the text up to the first \<open></name>\<close> behind it with that \<open></name>\<close>\<close>
  "block_length name s =
     (if reads (''<'' @ name) s
      then (let r = drop (length name + 1) s;
                a = length (takeWhile (\<lambda>c. c \<noteq> CHR ''>'') r)
            in case drop a r of
                 [] \<Rightarrow> None
               | g # r' \<Rightarrow>
                   (case find_first (''</'' @ name @ ''>'') r' of
                      None \<Rightarrow> None
                    | Some i \<Rightarrow> Some (length name + 1 + a + 1 + i + (length name + 3))))
      else None)"

fun remove_blocks :: "string \<Rightarrow> nat \<Rightarrow> string \<Rightarrow> string" where
  \<comment> \<open>the text without its blocks of the element \<open>name\<close>, found from left to right;
      the number counts the characters of a block still to be left out\<close>
  "remove_blocks name n [] = []"
| "remove_blocks name (Suc n) (c # cs) = remove_blocks name n cs"
| "remove_blocks name 0 (c # cs) =
     (case block_length name (c # cs) of
        None \<Rightarrow> c # remove_blocks name 0 cs
      | Some n \<Rightarrow> remove_blocks name (n - 1) cs)"

definition block_pattern :: "string \<Rightarrow> item list" where
  \<comment> \<open>the pattern \<open><name[^>]*>.*?</name>\<close> with \<open>re.DOTALL | re.IGNORECASE\<close>\<close>
  "block_pattern name =
     lit (''<'' @ name) @ [Star (\<lambda>c. c \<noteq> CHR ''>'')] @ lit ''>'' @ [Lazy (\<lambda>c. True)] @
     lit (''</'' @ name @ ''>'')"

definition attribute_pattern :: "string \<Rightarrow> item list" where
  \<comment> \<open>the pattern \<open>name=['"]?([^'" >]+)\<close> with \<open>re.IGNORECASE\<close>\<close>
  "attribute_pattern name = lit (name @ ''='') @ [Opt quote, Plus value_char]"




definition loads :: "world \<Rightarrow> item_result \<Rightarrow> bool" where
  \<comment> \<open>the analyzer can open and parse the output file of the item\<close>
  "loads w r = (case processed w (res_output_file r) of Some (Complete d) \<Rightarrow> True | _ \<Rightarrow> False)"

definition index_pairs :: "nat \<Rightarrow> (nat \<times> nat) list" where
  \<comment> \<open>the pairs \<open>(i, j)\<close> with \<open>i < j < n\<close>, by \<open>i\<close> and then by \<open>j\<close>\<close>
  "index_pairs n = concat (map (\<lambda>i. map (\<lambda>j. (i, j)) [i + 1 ..< n]) [0 ..< n])"

definition successful_items :: "process_status \<Rightarrow> item_result list" where
  \<comment> \<open>the success items of a completion record of the processor\<close>
  "successful_items st = filter (\<lambda>r. res_status r = ''success'') (ps_results st)"

definition successful_fetches :: "fetch_item list \<Rightarrow> fetch_item list" where
  \<comment> \<open>the success items of the completion record of the fetch stage\<close>
  "successful_fetches fetch_results = filter (\<lambda>r. fetch_status r = ''success'') fetch_results"

definition complete_at :: "world \<Rightarrow> string \<Rightarrow> bool" where
  \<comment> \<open>the processed document of that name exists and is fully written\<close>
  "complete_at w name = (case processed w name of Some (Complete d) \<Rightarrow> True | _ \<Rightarrow> False)"

definition similarity_count :: "(py_error + world) option \<Rightarrow> nat option" where
  \<comment> \<open>the number of similarity entries in the report that a run has left, if it left one\<close>
  "similarity_count run =
     (case run of
        Some (Inr w) \<Rightarrow>
          (case report w of
             Some rep \<Rightarrow> Some (length (rep_document_similarity rep))
           | None \<Rightarrow> None)
      | _ \<Rightarrow> None)"

definition quiet_world :: world where
  \<comment> \<open>an empty storage area in which every write succeeds\<close>
  "quiet_world =
     \<lparr>raw = Map.empty, processed = Map.empty, fetch_complete = None, process_complete = None,
      report = None, clock = ''2024-01-01T00:00:00+00:00'', write_fault = (\<lambda>name. None),
      status_write_fails = False, report_write_fails = False\<rparr>"



definition nothing_fetched_world :: world where
  \<comment> \<open>both earlier stages have finished, and neither lists a success\<close>
  "nothing_fetched_world = quiet_world
     \<lparr>fetch_complete := Some [\<lparr>fetch_file = ''a.html'', fetch_status = ''failed''\<rparr>],
      process_complete := Some
        \<lparr>ps_timestamp = ''2024-01-01T00:00:00+00:00'', ps_files_processed = 1,
         ps_successful = 0, ps_failed = 1,
         ps_results = [\<lparr>res_source_file = ''a.html'', res_output_file = ''a.json'',
                        res_status = ''failed'', res_counts = None\<rparr>]\<rparr>\<rparr>"

definition missing_document_record :: process_status where
  "missing_document_record =
     \<lparr>ps_timestamp = ''2024-01-01T00:00:00+00:00'', ps_files_processed = 3,
      ps_successful = 3, ps_failed = 0,
      ps_results =
        [\<lparr>res_source_file = ''a.html'', res_output_file = ''a.json'',
          res_status = ''success'', res_counts = Some (2, 0, 0)\<rparr>,
         \<lparr>res_source_file = ''b.html'', res_output_file = ''b.json'',
          res_status = ''success'', res_counts = Some (1, 0, 0)\<rparr>,
         \<lparr>res_source_file = ''c.html'', res_output_file = ''c.json'',
          res_status = ''success'', res_counts = Some (1, 0, 0)\<rparr>]\<rparr>"

definition missing_document_world :: world where
  \<comment> \<open>the processor reports three documents processed; the output file of the second
      is not there\<close>
  "missing_document_world = quiet_world
     \<lparr>processed :=
        [''a.json'' \<mapsto> Complete
           \<lparr>doc_source_file = ''a.html'', doc_text = ''one two'',
            doc_statistics = count_statistics ''one two'', doc_links = [], doc_images = [],
            doc_processed_at = ''2024-01-01T00:00:00+00:00''\<rparr>,
         ''c.json'' \<mapsto> Complete
           \<lparr>doc_source_file = ''c.html'', doc_text = ''two'',
            doc_statistics = count_statistics ''two'', doc_links = [], doc_images = [],
            doc_processed_at = ''2024-01-01T00:00:00+00:00''\<rparr>],
      process_complete := Some missing_document_record\<rparr>"

definition sentence_count :: "string \<Rightarrow> nat" where
  \<comment> \<open>the number of sentences of a text: the pieces between the runs of \<open>.\<close>, \<open>!\<close> and
      \<open>?\<close> that are not blank\<close>
  "sentence_count text =
     length (filter (\<lambda>s. strip s \<noteq> []) (re_split sentence_pattern text))"

definition corpus_sentences :: "string list \<Rightarrow> nat" where
  "corpus_sentences texts = sum_list (map sentence_count texts)"

definition corpus_words :: "string list \<Rightarrow> string list" where
  \<comment> \<open>the tokens of all the texts\<close>
  "corpus_words texts = concat (map tokenize_text texts)"

definition corpus_syllables :: "string list \<Rightarrow> nat" where
  "corpus_syllables texts = sum_list (map syllable_count (corpus_words texts))"

section \<open>Jaccard similarity\<close>

theorem jaccard_similarity_counterexample:
  "set ([] :: string list) = set [] \<and> jaccard_similarity [] [] \<noteq> 1"
  by (simp add: jaccard_similarity_def)

text \<open>
  Claim C6, amended. For all token lists \<open>A\<close> and \<open>B\<close>, the similarity of \<open>A\<close> and \<open>B\<close> is
  that of \<open>B\<close> and \<open>A\<close>; it is 1 when the two lists have the same set of distinct tokens
  and that set is not empty; it is 0 when the two sets are disjoint; and it is 0 when their
  union is empty (two documents without tokens have the same set of tokens and
  similarity 0, not 1).
\<close>

theorem jaccard_similarity_laws:
  "jaccard_similarity A B = jaccard_similarity B A \<and>
   (set A = set B \<and> set A \<noteq> {} \<longrightarrow> jaccard_similarity A B = 1) \<and>
   (set A \<inter> set B = {} \<longrightarrow> jaccard_similarity A B = 0) \<and>
   (set A \<union> set B = {} \<longrightarrow> jaccard_similarity A B = 0)"
proof (intro conjI impI)
  show "jaccard_similarity A B = jaccard_similarity B A"
    by (simp add: jaccard_similarity_def Let_def Int_commute Un_commute)
next
  assume "set A = set B \<and> set A \<noteq> {}"
  then have "card (set B) \<noteq> 0" and "set A = set B"
    by (auto simp: card_eq_0_iff)
  then show "jaccard_similarity A B = 1"
    by (simp add: jaccard_similarity_def Let_def)
next
  assume "set A \<inter> set B = {}"
  then show "jaccard_similarity A B = 0"
    by (simp add: jaccard_similarity_def Let_def)
next
  assume "set A \<union> set B = {}"
  then show "jaccard_similarity A B = 0"
    by (simp add: jaccard_similarity_def Let_def)
qed

theorem jaccard_similarity_laws_witness:
  "jaccard_similarity [''a'', ''b''] [''a'', ''c''] = jaccard_similarity [''a'', ''c''] [''a'', ''b''] \<and>
   jaccard_similarity [''a'', ''b'', ''a''] [''b'', ''a''] = 1 \<and>
   jaccard_similarity [''a''] [''b''] = 0 \<and>
   jaccard_similarity [] [] = 0"
proof -
  have same: "set [''a'', ''b'', ''a''] = set [''b'', ''a''] \<and> set [''a'', ''b'', ''a''] \<noteq> {}"
    by auto
  have disjoint: "set [''a''] \<inter> set [''b''] = {}"
    by simp
  have empty: "set ([] :: string list) \<union> set [] = {}"
    by simp
  show ?thesis
    using jaccard_similarity_laws [of "[''a'', ''b'']" "[''a'', ''c'']"]
      jaccard_similarity_laws [of "[''a'', ''b'', ''a'']" "[''b'', ''a'']"] same
      jaccard_similarity_laws [of "[''a'']" "[''b'']"] disjoint
      jaccard_similarity_laws [of "[]" "[]"] empty
    by blast
qed

section \<open>The matcher, item by item\<close>

lemma first_success_all_None:
  "(\<And>n. n \<in> set ns \<Longrightarrow> f n = None) \<Longrightarrow> first_success f ns = None"
  by (induction ns) auto

lemma first_success_single: "first_success f [n] = f n"
  by (cases "f n") simp_all

lemma first_success_greedy:
  assumes "\<And>n. 1 \<le> n \<Longrightarrow> n < k \<Longrightarrow> f n = None"
  shows "first_success f (rev [1 ..< Suc k]) = (if 1 \<le> k then f k else None)"
proof (cases "1 \<le> k")
  case True
  then have "rev [1 ..< Suc k] = k # rev [1 ..< k]" by simp
  moreover have "first_success f (rev [1 ..< k]) = None"
    using assms by (intro first_success_all_None) auto
  ultimately show ?thesis using True by (simp split: option.splits)
next
  case False
  then show ?thesis by simp
qed

lemma take_run: "take (length (takeWhile p s)) s = takeWhile p s"
  by (rule takeWhile_eq_take [symmetric])

lemma drop_run: "drop (length (takeWhile p s)) s = dropWhile p s"
  by (rule dropWhile_eq_drop [symmetric])

lemma inside_run:
  assumes "1 \<le> n" "n < length (takeWhile p s)"
  shows "p (last (take n s))" and "drop n s \<noteq> []" and "p (hd (drop n s))"
proof -
  let ?k = "length (takeWhile p s)"
  have len: "?k \<le> length s" by (simp add: length_takeWhile_le)
  have nth: "\<And>i. i < ?k \<Longrightarrow> p (s ! i)"
    by (metis nth_mem set_takeWhileD takeWhile_nth)
  have "take n s \<noteq> []" and "length (take n s) = n"
    using assms len by auto
  then have "last (take n s) = s ! (n - 1)"
    using assms by (simp add: last_conv_nth)
  then show "p (last (take n s))" using nth [of "n - 1"] assms by simp
  show "drop n s \<noteq> []" using assms len by simp
  have "hd (drop n s) = s ! n" using assms len by (simp add: hd_drop_conv_nth)
  then show "p (hd (drop n s))" using nth [of n] assms by simp
qed

lemma end_of_run: "takeWhile p s \<noteq> [] \<Longrightarrow> p (last (takeWhile p s))"
  by (meson last_in_set set_takeWhileD)

lemma match_Nil: "match_here [] prev s = Some []"
  by simp

lemma match_WordB:
  "match_here (WordB # its) prev s =
     (if at_boundary prev s then map_option ((#) 0) (match_here its prev s) else None)"
  by (simp add: prev_after_def split: option.splits)

lemma match_One:
  "match_here (One p # its) prev s =
     (case s of [] \<Rightarrow> None
      | c # cs \<Rightarrow> if p c then map_option ((#) 1) (match_here its (Some c) cs) else None)"
  by (cases s) (simp_all add: prev_after_def split: option.splits)

lemma match_Plus_greedy:
  assumes "\<And>n. 1 \<le> n \<Longrightarrow> n < length (takeWhile p s) \<Longrightarrow>
             match_here its (Some (last (take n s))) (drop n s) = None"
  shows "match_here (Plus p # its) prev s =
     (if takeWhile p s \<noteq> []
      then map_option ((#) (length (takeWhile p s)))
             (match_here its (Some (last (takeWhile p s))) (dropWhile p s))
      else None)"
proof -
  let ?k = "length (takeWhile p s)"
  let ?f = "\<lambda>n. map_option ((#) n) (match_here its (prev_after prev s n) (drop n s))"
  have "?f n = None" if "1 \<le> n" "n < ?k" for n
    using assms [OF that] that by (simp add: prev_after_def)
  then have "first_success ?f (rev [1 ..< Suc ?k]) = (if 1 \<le> ?k then ?f ?k else None)"
    by (rule first_success_greedy)
  moreover have "?f ?k = map_option ((#) ?k) (match_here its (Some (last (takeWhile p s))) (dropWhile p s))"
    if "takeWhile p s \<noteq> []"
    using that by (simp add: prev_after_def take_run drop_run)
  moreover have "(1 \<le> ?k) = (takeWhile p s \<noteq> [])"
    by (cases "takeWhile p s") simp_all
  ultimately show ?thesis
    by (simp del: upt_Suc)
qed

declare match_here.simps(2) [simp del]

section \<open>Tokenization\<close>

lemma ascii_letter_is_word: "ascii_letter c \<Longrightarrow> is_word c"
  unfolding ascii_letter_def is_word_def isalnum_def Let_def by blast

lemma at_boundary_after_word:
  "is_word c \<Longrightarrow> at_boundary (Some c) t = (t = [] \<or> \<not> is_word (hd t))"
  by (cases t) (simp_all add: at_boundary_def)

lemma match_word_pattern:
  "match_here word_pattern prev s =
     (if at_boundary prev s \<and> takeWhile ascii_letter s \<noteq> [] \<and>
         (dropWhile ascii_letter s = [] \<or> \<not> is_word (hd (dropWhile ascii_letter s)))
      then Some [0, length (takeWhile ascii_letter s), 0] else None)"
proof -
  have inner: "match_here [WordB] (Some (last (take n s))) (drop n s) = None"
    if "1 \<le> n" "n < length (takeWhile ascii_letter s)" for n
  proof -
    from inside_run [OF that]
    have "is_word (last (take n s))" "drop n s \<noteq> []" "is_word (hd (drop n s))"
      by (auto intro: ascii_letter_is_word)
    then show ?thesis
      by (simp add: match_WordB at_boundary_after_word)
  qed
  have "is_word (last (takeWhile ascii_letter s))" if "takeWhile ascii_letter s \<noteq> []"
    using end_of_run [OF that] by (rule ascii_letter_is_word)
  then show ?thesis
    unfolding word_pattern_def
    by (simp add: match_WordB match_Plus_greedy [OF inner] at_boundary_after_word)
qed

lemma runs_not_first: "\<not> p c \<Longrightarrow> runs p (c # cs) = runs p cs"
  by simp

lemma runs_first: "p c \<Longrightarrow> runs p (c # cs) = takeWhile p (c # cs) # runs p (dropWhile p cs)"
  by simp

lemma at_boundary_Cons: "at_boundary prev (c # cs) = (word_before prev \<noteq> is_word c)"
  by (simp add: at_boundary_def word_before_def)

lemma takeWhile_wider:
  assumes "\<And>c. p c \<Longrightarrow> q c"
  shows "dropWhile p s = [] \<or> \<not> q (hd (dropWhile p s)) \<Longrightarrow>
         takeWhile q s = takeWhile p s \<and> dropWhile q s = dropWhile p s"
  using assms by (induction s) (auto split: if_splits)

lemma run_not_all:
  assumes "\<And>c. p c \<Longrightarrow> q c"
  shows "dropWhile p s \<noteq> [] \<Longrightarrow> q (hd (dropWhile p s)) \<Longrightarrow> \<not> list_all p (takeWhile q s)"
  using assms by (induction s) (auto split: if_splits)

lemma dropWhile_stays: "t = [] \<or> \<not> q (hd t) \<Longrightarrow> dropWhile q t = t"
  by (cases t) auto

lemma hits_scan_word_pattern:
  "hits (re_scan word_pattern prev s) =
     filter (list_all ascii_letter)
       (runs is_word (if word_before prev then dropWhile is_word s else s))"
proof (induction "length s" arbitrary: s prev rule: less_induct)
  case less
  show ?case
  proof (cases s)
    case Nil
    then show ?thesis by simp
  next
    case (Cons c cs)
    let ?L = "takeWhile ascii_letter s"
    let ?R = "dropWhile ascii_letter s"
    let ?M = "at_boundary prev s \<and> ?L \<noteq> [] \<and> (?R = [] \<or> \<not> is_word (hd ?R))"
    show ?thesis
    proof (cases ?M)
      case True
      then have k: "sum_list [0, length ?L, 0] \<noteq> 0" by simp
      have letter: "ascii_letter c" using True Cons by (auto split: if_splits)
      then have wc: "is_word c" by (rule ascii_letter_is_word)
      with True Cons have nwb: "\<not> word_before prev" by (simp add: at_boundary_Cons)
      have tw: "takeWhile is_word s = ?L" and dw: "dropWhile is_word s = ?R"
        using takeWhile_wider [of ascii_letter is_word s, OF ascii_letter_is_word] True by blast+
      have lastw: "is_word (last ?L)"
        using True end_of_run [of ascii_letter s] ascii_letter_is_word by blast
      have shorter: "length ?R < length s"
        using True by (metis length_append length_greater_0_conv less_add_same_cancel2 takeWhile_dropWhile_id)
      have scan: "re_scan word_pattern prev s =
          Hit ?L [0, length ?L, 0] # re_scan word_pattern (Some (last ?L)) ?R"
        using True Cons by (simp add: match_word_pattern take_run drop_run)
      have "hits (re_scan word_pattern (Some (last ?L)) ?R) =
          filter (list_all ascii_letter) (runs is_word (dropWhile is_word ?R))"
        using less [OF shorter, of "Some (last ?L)"] lastw by (simp add: word_before_def)
      moreover have "dropWhile is_word ?R = ?R"
        using True by (intro dropWhile_stays) blast
      moreover have "runs is_word s = ?L # runs is_word ?R"
        using Cons wc tw dw by simp
      moreover have "list_all ascii_letter ?L"
        by (auto simp: list_all_iff dest: set_takeWhileD)
      ultimately show ?thesis using scan nwb by simp
    next
      case False
      then have scan: "re_scan word_pattern prev s = Chr c # re_scan word_pattern (Some c) cs"
        using Cons by (simp add: match_word_pattern)
      have ih: "hits (re_scan word_pattern (Some c) cs) =
          filter (list_all ascii_letter) (runs is_word (if is_word c then dropWhile is_word cs else cs))"
        using less [of cs "Some c"] Cons by (simp add: word_before_def)
      show ?thesis
      proof (cases "is_word c")
        case nw: False
        then show ?thesis using scan ih Cons by simp
      next
        case w: True
        show ?thesis
        proof (cases "word_before prev")
          case True
          then show ?thesis using scan ih Cons w by simp
        next
          case nwb: False
          then have b: "at_boundary prev s" using w Cons by (simp add: at_boundary_Cons)
          have "\<not> list_all ascii_letter (takeWhile is_word s)"
          proof (cases "?L = []")
            case True
            then have "\<not> ascii_letter c" using Cons by (auto split: if_splits)
            then show ?thesis using Cons w by simp
          next
            case L: False
            with False b have "?R \<noteq> []" "is_word (hd ?R)" by auto
            then show ?thesis
              using run_not_all [of ascii_letter is_word s, OF ascii_letter_is_word] by blast
          qed
          then show ?thesis using scan ih Cons w nwb by simp
        qed
      qed
    qed
  qed
qed

text \<open>
  What \<open>tokenize_text\<close> computes: the maximal runs of word characters (letters, digits and
  the underscore) of the lower-cased text that consist of the letters \<open>a\<close> to \<open>z\<close> only,
  since \<open>\b\<close> holds only where a word character meets a character that is none.
\<close>

lemma tokenize_text_alphabetic_words:
  "tokenize_text text = alphabetic_words (lower text)"
  by (simp add: tokenize_text_def re_findall_def alphabetic_words_def hits_scan_word_pattern word_before_def)

text \<open>
  Claim C1 says that digits and punctuation bound the tokens and are no part of them, so
  that the text \<open>abc123 def\<close> yields the tokens \<open>abc\<close> and \<open>def\<close>. The code does not do
  that: on \<open>abc123 def\<close> it returns the one token \<open>def\<close>. The letters \<open>abc\<close> are followed
  by a digit, which \<open>\b\<close> counts as a word character, so no match ends there and the word
  is lost altogether.
\<close>

theorem tokenize_text_drops_word:
  "tokenize_text ''abc123 def'' = [''def'']"
  by (simp add: tokenize_text_alphabetic_words alphabetic_words_def lower_def lower_char_def
      is_word_def isalnum_def ascii_letter_def)

section \<open>Scanning\<close>

lemma match_Plus_last:
  "match_here [Plus p] prev s =
     (if takeWhile p s \<noteq> [] then Some [length (takeWhile p s)] else None)"
proof (cases "takeWhile p s")
  case Nil
  then show ?thesis by (simp add: match_here.simps(2))
next
  case (Cons x xs)
  then have "rev [1 ..< Suc (length (takeWhile p s))] =
      length (takeWhile p s) # rev [1 ..< length (takeWhile p s)]"
    by simp
  then show ?thesis using Cons by (simp add: match_here.simps(2) del: upt_Suc)
qed

lemma drop_shorter: "n \<noteq> 0 \<Longrightarrow> length (drop n (c # cs)) < length (c # cs)"
  by simp

lemma set_substitute:
  "set (substitute repl (re_scan its prev s)) \<subseteq> set s \<union> set repl"
proof (induction "length s" arbitrary: s prev rule: less_induct)
  case less
  show ?case
  proof (cases s)
    case Nil
    then show ?thesis by simp
  next
    case (Cons c cs)
    show ?thesis
    proof (cases "match_here its prev s")
      case None
      then show ?thesis using Cons less [of cs "Some c"] by auto
    next
      case (Some ns)
      show ?thesis
      proof (cases "sum_list ns = 0")
        case True
        then show ?thesis using Cons Some less [of cs "Some c"] by auto
      next
        case False
        then have "length (drop (sum_list ns) s) < length s"
          unfolding Cons by (rule drop_shorter)
        from less [OF this] have "set (substitute repl (re_scan its (Some (last (take (sum_list ns) s)))
             (drop (sum_list ns) s))) \<subseteq> set (drop (sum_list ns) s) \<union> set repl" .
        moreover have "set (drop (sum_list ns) s) \<subseteq> set s" by (rule set_drop_subset)
        ultimately show ?thesis using Cons Some False by auto
      qed
    qed
  qed
qed

section \<open>Tags\<close>

lemma match_tag_pattern:
  "match_here tag_pattern prev s =
     (case s of [] \<Rightarrow> None
      | c # cs \<Rightarrow>
          if c = CHR ''<'' \<and> takeWhile (\<lambda>c. c \<noteq> CHR ''>'') cs \<noteq> [] \<and>
             dropWhile (\<lambda>c. c \<noteq> CHR ''>'') cs \<noteq> []
          then Some [1, length (takeWhile (\<lambda>c. c \<noteq> CHR ''>'') cs), 1] else None)"
proof (cases s)
  case Nil
  then show ?thesis by (simp add: tag_pattern_def match_One)
next
  case (Cons c cs)
  let ?ng = "\<lambda>c. c \<noteq> CHR ''>''"
  have inner: "match_here [One (\<lambda>c. c = CHR ''>'')] (Some (last (take n cs))) (drop n cs) = None"
    if "1 \<le> n" "n < length (takeWhile ?ng cs)" for n
  proof -
    from inside_run [OF that] have "drop n cs \<noteq> []" "hd (drop n cs) \<noteq> CHR ''>''" by auto
    then show ?thesis by (cases "drop n cs") (simp_all add: match_One)
  qed
  have last: "match_here [One (\<lambda>c. c = CHR ''>'')] p (dropWhile ?ng cs) =
      (if dropWhile ?ng cs \<noteq> [] then Some [1] else None)" for p
  proof (cases "dropWhile ?ng cs")
    case Nil
    show ?thesis by (simp add: match_One Nil)
  next
    case (Cons x xs)
    then have "x = CHR ''>''" using hd_dropWhile [of ?ng cs] by auto
    then show ?thesis by (simp add: match_One Cons)
  qed
  have first: "match_here tag_pattern prev (c # cs) =
      (if c = CHR ''<''
       then map_option ((#) 1) (match_here [Plus ?ng, One (\<lambda>c. c = CHR ''>'')] (Some c) cs)
       else None)"
    by (simp add: tag_pattern_def match_One)
  show ?thesis
    unfolding Cons first by (simp add: match_Plus_greedy [OF inner] last)
qed

lemma no_tag_suffix: "no_tag (a @ b) \<Longrightarrow> no_tag b"
  by (induction a) auto

lemma no_tag_prefix: "no_tag (a @ b) \<Longrightarrow> no_tag a"
  by (induction a) (auto simp: hd_append)

lemma no_tag_drop: "no_tag s \<Longrightarrow> no_tag (drop n s)"
  using no_tag_suffix [of "take n s" "drop n s"] by simp

lemma no_tag_after_tags: "no_tag (substitute '' '' (re_scan tag_pattern prev s))"
proof (induction "length s" arbitrary: s prev rule: less_induct)
  case less
  show ?case
  proof (cases s)
    case Nil
    then show ?thesis by simp
  next
    case (Cons c cs)
    let ?ng = "\<lambda>c. c \<noteq> CHR ''>''"
    let ?X = "substitute '' '' (re_scan tag_pattern (Some c) cs)"
    show ?thesis
    proof (cases "c = CHR ''<'' \<and> takeWhile ?ng cs \<noteq> [] \<and> dropWhile ?ng cs \<noteq> []")
      case True
      let ?n = "Suc (Suc (length (takeWhile ?ng cs)))"
      have "length (drop ?n s) < length s" using Cons by simp
      from less [OF this] show ?thesis
        using Cons True by (simp add: match_tag_pattern)
    next
      case False
      then have scan: "substitute '' '' (re_scan tag_pattern prev s) = c # ?X"
        using Cons by (simp add: match_tag_pattern)
      have rest: "no_tag ?X" using less [of cs "Some c"] Cons by simp
      have "?X = [] \<or> hd ?X = CHR ''>'' \<or> CHR ''>'' \<notin> set ?X" if "c = CHR ''<''"
      proof -
        from False that consider "cs = []" | x xs where "cs = x # xs" "x = CHR ''>''"
          | "dropWhile ?ng cs = []"
          by (cases cs) (auto split: if_splits)
        then show ?thesis
        proof cases
          case 1
          then show ?thesis by simp
        next
          case 2
          then show ?thesis by (simp add: match_tag_pattern)
        next
          case 3
          then have "CHR ''>'' \<notin> set cs" by auto
          then show ?thesis
            using set_substitute [of "'' ''" tag_pattern "Some c" cs] by auto
        qed
      qed
      then show ?thesis using scan rest by simp
    qed
  qed
qed

section \<open>White space\<close>

lemma match_whitespace_pattern:
  "match_here whitespace_pattern prev s =
     (if takeWhile isspace s \<noteq> [] then Some [length (takeWhile isspace s)] else None)"
  by (simp add: whitespace_pattern_def match_Plus_last)

lemma not_space_gt [simp]: "\<not> isspace (CHR ''>'')" and not_space_lt [simp]: "\<not> isspace (CHR ''<'')"
  and space_space [simp]: "isspace (CHR '' '')" and space_newline [simp]: "isspace (CHR 0x0A)"
  by (simp_all add: isspace_def)

lemma scan_whitespace_Cons:
  "re_scan whitespace_pattern prev (c # cs) =
     (if isspace c
      then Hit (takeWhile isspace (c # cs)) [length (takeWhile isspace (c # cs))] #
           re_scan whitespace_pattern (Some (last (takeWhile isspace (c # cs)))) (dropWhile isspace cs)
      else Chr c # re_scan whitespace_pattern (Some c) cs)"
  by (simp add: match_whitespace_pattern take_run drop_run del: takeWhile.simps dropWhile.simps)
     (simp add: take_run [of isspace "c # cs", simplified] drop_run [of isspace "c # cs", simplified])

section \<open>Literals\<close>

lemma reads_Nil [simp]: "reads [] s"
  by (simp add: reads_def lower_def)

lemma reads_Cons:
  "reads (p # pat) s = (case s of [] \<Rightarrow> False | c # cs \<Rightarrow> lower_char c = p \<and> reads pat cs)"
  by (cases s) (auto simp: reads_def lower_def)

lemma reads_length:
  assumes "reads pat s"
  shows "length pat \<le> length s"
proof -
  have "length (lower (take (length pat) s)) = length pat"
    using assms by (simp only: reads_def)
  then show ?thesis by (simp add: lower_def)
qed

lemma prev_after_Suc:
  "n \<le> length cs \<Longrightarrow> prev_after prev (c # cs) (Suc n) = prev_after (Some c) cs n"
  by (cases cs) (auto simp: prev_after_def)

lemma drop_optional:
  "drop (if r \<noteq> [] \<and> P (hd r) then 1 else 0) r = (if r \<noteq> [] \<and> P (hd r) then tl r else r)"
  by (cases r) auto

lemma match_lit:
  "match_here (lit pat @ its) prev s =
     (if reads pat s
      then (case match_here its (prev_after prev s (length pat)) (drop (length pat) s) of
              None \<Rightarrow> None
            | Some r \<Rightarrow> Some (replicate (length pat) 1 @ r))
      else None)"
proof (induction pat arbitrary: prev s)
  case Nil
  then show ?case by (simp add: lit_def prev_after_def split: option.splits)
next
  case (Cons p pat)
  have step: "lit (p # pat) @ its = One (\<lambda>x. lower_char x = p) # (lit pat @ its)"
    by (simp add: lit_def)
  show ?case
  proof (cases s)
    case Nil
    then show ?thesis unfolding step by (simp add: match_One reads_Cons)
  next
    case c: (Cons c cs)
    show ?thesis
    proof (cases "lower_char c = p \<and> reads pat cs")
      case True
      then have "prev_after prev (c # cs) (Suc (length pat)) = prev_after (Some c) cs (length pat)"
        by (intro prev_after_Suc reads_length) simp
      then show ?thesis
        unfolding step c using True Cons.IH [of "Some c" cs]
        by (simp add: match_One reads_Cons split: option.splits)
    next
      case False
      then show ?thesis
        unfolding step c using Cons.IH [of "Some c" cs]
        by (auto simp: match_One reads_Cons)
    qed
  qed
qed

lemma match_lit_last:
  "match_here (lit pat) prev s = (if reads pat s then Some (replicate (length pat) 1) else None)"
  using match_lit [of pat "[]" prev s] by simp


section \<open>Attribute values\<close>

lemma match_Opt:
  "match_here (Opt p # its) prev s =
     (if s \<noteq> [] \<and> p (hd s)
      then (case match_here its (Some (hd s)) (tl s) of
              Some r \<Rightarrow> Some (1 # r)
            | None \<Rightarrow> map_option ((#) 0) (match_here its prev s))
      else map_option ((#) 0) (match_here its prev s))"
  by (cases s) (auto simp: match_here.simps(2) prev_after_def split: option.splits)

lemma not_value_quote: "quote c \<Longrightarrow> \<not> value_char c"
  by (auto simp: quote_def value_char_def)

lemma match_quoted_value:
  "match_here [Opt quote, Plus value_char] prev r =
     (let q = (if r \<noteq> [] \<and> quote (hd r) then 1 else 0);
          v = takeWhile value_char (drop q r)
      in if v \<noteq> [] then Some [q, length v] else None)"
proof (cases "r \<noteq> [] \<and> quote (hd r)")
  case True
  then obtain x xs where r: "r = x # xs" and q: "quote x" by (cases r) auto
  then have "takeWhile value_char (x # xs) = []" by (simp add: not_value_quote)
  then show ?thesis
    using r q by (simp add: match_Opt match_Plus_last Let_def del: takeWhile.simps)
next
  case False
  then show ?thesis by (auto simp: match_Opt match_Plus_last Let_def)
qed

lemma match_attribute_pattern:
  "match_here (attribute_pattern name) prev s =
     (let r = drop (length name + 1) s;
          q = (if r \<noteq> [] \<and> quote (hd r) then 1 else 0);
          v = takeWhile value_char (drop q r)
      in if reads (name @ ''='') s \<and> v \<noteq> []
         then Some (replicate (length name + 1) 1 @ [q, length v]) else None)"
  by (simp add: attribute_pattern_def match_lit match_quoted_value Let_def)

lemma group_attribute:
  assumes "v = takeWhile value_char (drop (n + q) s)"
  shows "group_text (Suc n) (take (n + q + length v) s) (replicate n 1 @ [q, length v]) = v"
proof -
  have "drop (n + q) (take (n + q + length v) s) = take (length v) (drop (n + q) s)"
    by (simp add: drop_take)
  also have "\<dots> = v" unfolding assms by (rule take_run)
  finally show ?thesis
    by (simp add: group_text_def nth_append sum_list_replicate)
qed

lemma scan_hit:
  "match_here its prev (c # cs) = Some ns \<Longrightarrow> sum_list ns = k \<Longrightarrow> k \<noteq> 0 \<Longrightarrow>
   re_scan its prev (c # cs) =
     Hit (take k (c # cs)) ns # re_scan its (Some (last (take k (c # cs)))) (drop k (c # cs))"
  by simp

lemma scan_miss:
  "match_here its prev (c # cs) = None \<Longrightarrow>
   re_scan its prev (c # cs) = Chr c # re_scan its (Some c) cs"
  by simp

lemma groups_scan_attribute_pattern:
  "groups (length name + 2) (re_scan (attribute_pattern name) prev s) = attribute_values name s"
proof (induction "length s" arbitrary: s prev rule: less_induct)
  case less
  show ?case
  proof (cases s)
    case Nil
    then show ?thesis by simp
  next
    case (Cons c cs)
    define n where "n = length name + 1"
    define r where "r = drop n s"
    define q :: nat where "q = (if r \<noteq> [] \<and> quote (hd r) then 1 else 0)"
    define r' where "r' = (if r \<noteq> [] \<and> quote (hd r) then tl r else r)"
    define v where "v = takeWhile value_char r'"
    define k where "k = n + q + length v"
    have "drop q r = r'"
      unfolding q_def r'_def by (rule drop_optional)
    then have r': "drop (n + q) s = r'"
      by (simp add: r_def add.commute)
    have m: "match_here (attribute_pattern name) prev s =
        (if reads (name @ ''='') s \<and> v \<noteq> [] then Some (replicate n 1 @ [q, length v]) else None)"
      by (simp only: match_attribute_pattern Let_def drop_optional n_def r_def q_def r'_def v_def)
    have a: "attribute_values name s =
        (if reads (name @ ''='') s \<and> v \<noteq> []
         then v # attribute_values name (dropWhile value_char r')
         else attribute_values name cs)"
      unfolding Cons attribute_values.simps Let_def
      by (simp only: n_def r_def r'_def v_def Cons)
    show ?thesis
    proof (cases "reads (name @ ''='') s \<and> v \<noteq> []")
      case True
      have sum: "sum_list (replicate n 1 @ [q, length v]) = k"
        by (simp add: sum_list_replicate k_def)
      have k0: "k \<noteq> 0" by (simp add: k_def n_def)
      have "drop k s = drop (length v) (drop (n + q) s)"
        by (simp add: k_def add.commute)
      then have rest: "drop k s = dropWhile value_char r'"
        unfolding r' v_def by (simp only: drop_run)
      have shorter: "length (drop k s) < length s"
        unfolding Cons using k0 by (rule drop_shorter)
      have "match_here (attribute_pattern name) prev (c # cs) = Some (replicate n 1 @ [q, length v])"
        using m True unfolding Cons by simp
      from scan_hit [OF this sum k0]
      have scan: "re_scan (attribute_pattern name) prev s =
          Hit (take k s) (replicate n 1 @ [q, length v]) #
          re_scan (attribute_pattern name) (Some (last (take k s))) (drop k s)"
        unfolding Cons .
      have "v = takeWhile value_char (drop (n + q) s)"
        by (simp only: r' v_def)
      from group_attribute [OF this]
      have g: "group_text (length name + 2) (take k s) (replicate n 1 @ [q, length v]) = v"
        by (simp add: k_def n_def)
      show ?thesis
        unfolding scan groups.simps g a using True less [OF shorter] rest by simp
    next
      case False
      have "match_here (attribute_pattern name) prev (c # cs) = None"
        using m False unfolding Cons by simp
      from scan_miss [OF this]
      have sc: "re_scan (attribute_pattern name) prev s =
          Chr c # re_scan (attribute_pattern name) (Some c) cs"
        unfolding Cons .
      have av: "attribute_values name s = attribute_values name cs"
        using a False by (simp only: if_False)
      have "length cs < length s" using Cons by simp
      from less [OF this, of "Some c"] show ?thesis
        unfolding sc av groups.simps .
    qed
  qed
qed

section \<open>Blocks\<close>

lemma lower_char_gt: "(lower_char x = CHR ''>'') = (x = CHR ''>'')"
proof -
  have "(of_char x :: nat) < 256" by simp
  then show ?thesis
    by (auto simp: lower_char_def Let_def char_of_eq_iff take_bit_eq_mod)
qed

lemma reads_gt: "reads ''>'' t = (t \<noteq> [] \<and> hd t = CHR ''>'')"
  by (cases t) (simp_all add: reads_Cons lower_char_gt)

lemma first_success_map: "first_success f (map h xs) = first_success (\<lambda>x. f (h x)) xs"
  by (induction xs) (auto split: option.splits)

lemma first_success_find:
  assumes "pat \<noteq> []"
  shows "first_success (\<lambda>n. if reads pat (drop n r) then Some (g (n + d)) else None)
           [0 ..< Suc (length r)] =
         map_option (\<lambda>i. g (i + d)) (find_first pat r)"
proof (induction r arbitrary: d)
  case Nil
  have "\<not> reads pat []" using assms by (auto simp: reads_def lower_def)
  then show ?case by simp
next
  case (Cons c cs)
  have "[0 ..< Suc (length (c # cs))] = 0 # [Suc 0 ..< Suc (Suc (length cs))]"
    by (simp add: upt_conv_Cons del: upt_Suc)
  also have "[Suc 0 ..< Suc (Suc (length cs))] = map Suc [0 ..< Suc (length cs)]"
    by (rule map_Suc_upt [symmetric])
  finally have upt: "[0 ..< Suc (length (c # cs))] = 0 # map Suc [0 ..< Suc (length cs)]" .
  show ?case
  proof (cases "reads pat (c # cs)")
    case True
    then show ?thesis unfolding upt by simp
  next
    case False
    have "first_success (\<lambda>n. if reads pat (drop n (c # cs)) then Some (g (n + d)) else None)
            (map Suc [0 ..< Suc (length cs)]) =
          first_success (\<lambda>n. if reads pat (drop n cs) then Some (g (n + Suc d)) else None)
            [0 ..< Suc (length cs)]"
      by (simp only: first_success_map drop_Suc_Cons add_Suc add_Suc_right)
    also have "\<dots> = map_option (\<lambda>i. g (i + Suc d)) (find_first pat cs)"
      by (rule Cons.IH)
    finally show ?thesis
      unfolding upt using False by (simp add: option.map_comp comp_def)
  qed
qed

lemma takeWhile_True: "takeWhile (\<lambda>c. True) r = r"
  by (induction r) auto

lemma match_Lazy_lit:
  assumes "pat \<noteq> []"
  shows "match_here (Lazy (\<lambda>c. True) # lit pat) prev r =
         map_option (\<lambda>i. i # replicate (length pat) 1) (find_first pat r)"
proof -
  have "match_here (Lazy (\<lambda>c. True) # lit pat) prev r =
      first_success (\<lambda>n. if reads pat (drop n r) then Some ((n + 0) # replicate (length pat) 1) else None)
        [0 ..< Suc (length r)]"
    by (simp add: match_here.simps(2) match_lit_last takeWhile_True
        if_distrib [of "map_option _"] del: upt_Suc cong: if_cong)
  then show ?thesis
    using first_success_find [OF assms, of r "\<lambda>n. n # replicate (length pat) 1" 0] by simp
qed

lemma before_end_of_run:
  assumes "n < length (takeWhile p s)"
  shows "drop n s \<noteq> []" and "p (hd (drop n s))"
proof -
  have len: "length (takeWhile p s) \<le> length s" by (rule length_takeWhile_le)
  then show "drop n s \<noteq> []" using assms by simp
  have "p (s ! n)" using assms by (metis nth_mem set_takeWhileD takeWhile_nth)
  then show "p (hd (drop n s))" using assms len by (simp add: hd_drop_conv_nth)
qed

lemma match_Star_greedy:
  assumes "\<And>n. n < length (takeWhile p s) \<Longrightarrow>
             match_here its (prev_after prev s n) (drop n s) = None"
  shows "match_here (Star p # its) prev s =
     map_option ((#) (length (takeWhile p s)))
       (match_here its (prev_after prev s (length (takeWhile p s))) (dropWhile p s))"
proof -
  let ?k = "length (takeWhile p s)"
  let ?f = "\<lambda>n. map_option ((#) n) (match_here its (prev_after prev s n) (drop n s))"
  have "first_success ?f (rev [0 ..< ?k]) = None"
    using assms by (intro first_success_all_None) auto
  moreover have "rev [0 ..< Suc ?k] = ?k # rev [0 ..< ?k]" by simp
  ultimately have "first_success ?f (rev [0 ..< Suc ?k]) = ?f ?k"
    by (simp split: option.splits del: upt_Suc)
  then show ?thesis
    by (simp add: match_here.simps(2) drop_run del: upt_Suc)
qed


lemma match_block_tail:
  "map_option sum_list
     (match_here (Star (\<lambda>c. c \<noteq> CHR ''>'') # (lit ''>'' @ (Lazy (\<lambda>c. True) # lit close))) prev r) =
   (case drop (length (takeWhile (\<lambda>c. c \<noteq> CHR ''>'') r)) r of
      [] \<Rightarrow> None
    | g # r' \<Rightarrow>
        (case find_first close r' of
           None \<Rightarrow> None
         | Some i \<Rightarrow> Some (length (takeWhile (\<lambda>c. c \<noteq> CHR ''>'') r) + 1 + i + length close)))"
  if "close \<noteq> []"
proof -
  let ?ng = "\<lambda>c. c \<noteq> CHR ''>''"
  let ?rest = "lit ''>'' @ (Lazy (\<lambda>c. True) # lit close)"
  let ?a = "length (takeWhile ?ng r)"
  have inner: "match_here ?rest (prev_after prev r n) (drop n r) = None" if "n < ?a" for n
  proof -
    from before_end_of_run [OF that] have "\<not> reads ''>'' (drop n r)"
      by (simp add: reads_gt)
    then show ?thesis by (simp add: match_lit)
  qed
  have star: "match_here (Star ?ng # ?rest) prev r =
      map_option ((#) ?a) (match_here ?rest (prev_after prev r ?a) (dropWhile ?ng r))"
    by (rule match_Star_greedy [OF inner])
  show ?thesis
  proof (cases "dropWhile ?ng r")
    case Nil
    have "match_here ?rest p [] = None" for p
      by (simp add: match_lit reads_gt)
    then show ?thesis unfolding star drop_run Nil by simp
  next
    case (Cons g r')
    then have "g = CHR ''>''" using hd_dropWhile [of ?ng r] by auto
    then have rd: "reads ''>'' (dropWhile ?ng r)" using Cons by (simp add: reads_gt)
    have "match_here ?rest (prev_after prev r ?a) (dropWhile ?ng r) =
        map_option (\<lambda>i. 1 # i # replicate (length close) 1) (find_first close r')"
      using rd Cons that
      by (simp add: match_lit match_Lazy_lit split: option.splits)
    then show ?thesis
      unfolding star drop_run Cons
      by (simp add: option.map_comp comp_def sum_list_replicate split: option.splits)
  qed
qed

lemma match_block_pattern:
  "map_option sum_list (match_here (block_pattern name) prev s) = block_length name s"
proof -
  let ?close = "''</'' @ name @ ''>''"
  let ?tail = "Star (\<lambda>c. c \<noteq> CHR ''>'') # (lit ''>'' @ (Lazy (\<lambda>c. True) # lit ?close))"
  have pat: "block_pattern name = lit (''<'' @ name) @ ?tail"
    by (simp add: block_pattern_def)
  have ne: "?close \<noteq> []" by simp
  show ?thesis
  proof (cases "reads (''<'' @ name) s")
    case False
    then show ?thesis unfolding pat by (simp add: match_lit block_length_def)
  next
    case True
    let ?r = "drop (length name + 1) s"
    let ?p = "prev_after prev s (length (''<'' @ name))"
    have "map_option sum_list (match_here (block_pattern name) prev s) =
        map_option (\<lambda>n. length name + 1 + n) (map_option sum_list (match_here ?tail ?p ?r))"
      unfolding pat using True
      by (simp add: match_lit option.map_comp comp_def sum_list_replicate split: option.splits)
    also have "\<dots> = block_length name s"
      unfolding match_block_tail [OF ne] using True
      by (simp add: block_length_def Let_def split: list.splits option.splits)
    finally show ?thesis .
  qed
qed

lemma block_length_pos: "block_length name s = Some n \<Longrightarrow> n \<noteq> 0"
  by (auto simp: block_length_def Let_def split: if_splits list.splits option.splits)

lemma remove_blocks_skip: "remove_blocks name k s = remove_blocks name 0 (drop k s)"
proof (induction k arbitrary: s)
  case 0
  then show ?case by simp
next
  case (Suc k)
  then show ?case by (cases s) simp_all
qed

lemma substitute_scan_block_pattern:
  "substitute [] (re_scan (block_pattern name) prev s) = remove_blocks name 0 s"
proof (induction "length s" arbitrary: s prev rule: less_induct)
  case less
  show ?case
  proof (cases s)
    case Nil
    then show ?thesis by simp
  next
    case (Cons c cs)
    show ?thesis
    proof (cases "match_here (block_pattern name) prev (c # cs)")
      case None
      then have "block_length name (c # cs) = None"
        using match_block_pattern [of name prev "c # cs"] by simp
      moreover have "length cs < length s" using Cons by simp
      ultimately show ?thesis
        unfolding Cons scan_miss [OF None] using less [of cs "Some c"] Cons by simp
    next
      case (Some ns)
      then have bl: "block_length name (c # cs) = Some (sum_list ns)"
        using match_block_pattern [of name prev "c # cs"] by simp
      then have k0: "sum_list ns \<noteq> 0" by (rule block_length_pos)
      have shorter: "length (drop (sum_list ns) (c # cs)) < length s"
        unfolding Cons using k0 by (rule drop_shorter)
      have "drop (sum_list ns - 1) cs = drop (sum_list ns) (c # cs)"
        using k0 by (cases "sum_list ns") simp_all
      then have "remove_blocks name 0 (c # cs) = remove_blocks name 0 (drop (sum_list ns) (c # cs))"
        using bl remove_blocks_skip [of name "sum_list ns - 1" cs] by simp
      then show ?thesis
        unfolding Cons scan_hit [OF Some refl k0] using less [OF shorter] by simp
    qed
  qed
qed

lemma script_pattern_block: "script_pattern = block_pattern ''script''"
  by (simp add: script_pattern_def block_pattern_def)

lemma style_pattern_block: "style_pattern = block_pattern ''style''"
  by (simp add: style_pattern_def block_pattern_def)

lemma href_pattern_attribute: "href_pattern = attribute_pattern ''href''"
  by (simp add: href_pattern_def attribute_pattern_def)

lemma src_pattern_attribute: "src_pattern = attribute_pattern ''src''"
  by (simp add: src_pattern_def attribute_pattern_def)

lemma strip_html_parts:
  "strip_html html_content =
     (strip (re_sub whitespace_pattern '' ''
        (re_sub tag_pattern '' '' (remove_blocks ''style'' 0 (remove_blocks ''script'' 0 html_content)))),
      attribute_values ''href'' (remove_blocks ''style'' 0 (remove_blocks ''script'' 0 html_content)),
      attribute_values ''src'' (remove_blocks ''style'' 0 (remove_blocks ''script'' 0 html_content)))"
proof -
  have h: "(6::nat) = length ''href'' + 2" and i: "(5::nat) = length ''src'' + 2"
    by simp_all
  have "groups 6 (re_scan (attribute_pattern ''href'') None s) = attribute_values ''href'' s" for s
    unfolding h by (rule groups_scan_attribute_pattern)
  moreover have "groups 5 (re_scan (attribute_pattern ''src'') None s) = attribute_values ''src'' s" for s
    unfolding i by (rule groups_scan_attribute_pattern)
  ultimately show ?thesis
    by (simp add: strip_html_def Let_def re_sub_def re_findall_group_def script_pattern_block
        style_pattern_block href_pattern_attribute src_pattern_attribute
        substitute_scan_block_pattern)
qed

section \<open>Evaluating \<open>strip_html\<close>\<close>

lemma scan_tag_Cons:
  "re_scan tag_pattern prev (c # cs) =
     (if c = CHR ''<'' \<and> takeWhile (\<lambda>c. c \<noteq> CHR ''>'') cs \<noteq> [] \<and>
         dropWhile (\<lambda>c. c \<noteq> CHR ''>'') cs \<noteq> []
      then Hit (take (Suc (Suc (length (takeWhile (\<lambda>c. c \<noteq> CHR ''>'') cs)))) (c # cs))
             [1, length (takeWhile (\<lambda>c. c \<noteq> CHR ''>'') cs), 1] #
           re_scan tag_pattern (Some CHR ''>'') (tl (dropWhile (\<lambda>c. c \<noteq> CHR ''>'') cs))
      else Chr c # re_scan tag_pattern (Some c) cs)"
proof (cases "c = CHR ''<'' \<and> takeWhile (\<lambda>c. c \<noteq> CHR ''>'') cs \<noteq> [] \<and>
         dropWhile (\<lambda>c. c \<noteq> CHR ''>'') cs \<noteq> []")
  case True
  let ?ng = "\<lambda>c. c \<noteq> CHR ''>''"
  let ?k = "Suc (Suc (length (takeWhile ?ng cs)))"
  obtain g r where d: "dropWhile ?ng cs = g # r" using True by (cases "dropWhile ?ng cs") auto
  then have g: "g = CHR ''>''" using hd_dropWhile [of ?ng cs] by auto
  have cs: "cs = takeWhile ?ng cs @ g # r" using d by (metis takeWhile_dropWhile_id)
  have m: "match_here tag_pattern prev (c # cs) = Some [1, length (takeWhile ?ng cs), 1]"
    using True by (simp add: match_tag_pattern)
  have "drop ?k (c # cs) = r"
    using cs by (metis append_eq_conv_conj drop_Suc_Cons list.sel(3) tl_drop)
  moreover have "take ?k (c # cs) = c # takeWhile ?ng cs @ [g]"
    using cs by (metis append.assoc append_Cons append_Nil append_eq_conv_conj length_Cons length_append_singleton)
  ultimately show ?thesis
    using True scan_hit [OF m, of ?k] d g by simp
next
  case False
  then have "match_here tag_pattern prev (c # cs) = None" by (simp add: match_tag_pattern)
  from scan_miss [OF this] show ?thesis using False by simp
qed

lemma remove_blocks_numeral:
  "remove_blocks name (numeral k) (c # cs) = remove_blocks name (pred_numeral k) cs"
  by (simp add: numeral_eq_Suc)

lemmas strip_html_eval =
  remove_blocks_numeral
  strip_html_parts re_sub_def block_length_def reads_def lower_def lower_char_def Let_def
  char_of_eq_iff scan_tag_Cons scan_whitespace_Cons isspace_def strip_def quote_def value_char_def


section \<open>Links and images\<close>



section \<open>The text of \<open>strip_html\<close>\<close>

lemma no_tag_after_whitespace:
  "no_tag s \<Longrightarrow> no_tag (substitute '' '' (re_scan whitespace_pattern prev s))"
proof (induction "length s" arbitrary: s prev rule: less_induct)
  case less
  show ?case
  proof (cases s)
    case Nil
    then show ?thesis by simp
  next
    case (Cons c cs)
    let ?X = "substitute '' '' (re_scan whitespace_pattern (Some c) cs)"
    show ?thesis
    proof (cases "isspace c")
      case True
      have "length (dropWhile isspace cs) < length s"
        using Cons by (simp add: le_imp_less_Suc length_dropWhile_le)
      moreover have "no_tag (dropWhile isspace cs)"
        using less.prems Cons no_tag_suffix [of "c # takeWhile isspace cs" "dropWhile isspace cs"]
        by simp
      ultimately show ?thesis
        using less.hyps Cons True by (simp add: scan_whitespace_Cons del: re_scan.simps)
    next
      case False
      have rest: "no_tag ?X" using less.hyps [of cs "Some c"] less.prems Cons by simp
      have "?X = [] \<or> hd ?X = CHR ''>'' \<or> CHR ''>'' \<notin> set ?X" if "c = CHR ''<''"
      proof -
        from less.prems Cons that consider "cs = []" | x xs where "cs = x # xs" "x = CHR ''>''"
          | "CHR ''>'' \<notin> set cs"
          by (cases cs) auto
        then show ?thesis
        proof cases
          case 1
          then show ?thesis by simp
        next
          case 2
          then show ?thesis by (simp add: scan_whitespace_Cons del: re_scan.simps)
        next
          case 3
          then show ?thesis
            using set_substitute [of "'' ''" whitespace_pattern "Some c" cs] by auto
        qed
      qed
      then show ?thesis using rest Cons False by (simp add: scan_whitespace_Cons del: re_scan.simps)
    qed
  qed
qed

lemma strip_prefix_suffix: "\<exists>a b. s = a @ strip s @ b"
proof -
  let ?v = "dropWhile isspace s"
  have "s = takeWhile isspace s @ ?v" by simp
  moreover have "?v = rev (dropWhile isspace (rev ?v)) @ rev (takeWhile isspace (rev ?v))"
    by (metis rev_append rev_rev_ident takeWhile_dropWhile_id)
  ultimately have "s = takeWhile isspace s @ strip s @ rev (takeWhile isspace (rev ?v))"
    by (simp add: strip_def)
  then show ?thesis by blast
qed

lemma no_tag_strip: "no_tag s \<Longrightarrow> no_tag (strip s)"
proof -
  assume a: "no_tag s"
  obtain x y where "s = x @ strip s @ y" using strip_prefix_suffix by blast
  then show ?thesis using a no_tag_suffix no_tag_prefix by metis
qed

lemma no_tag_text: "no_tag (fst (strip_html html_content))"
  by (simp add: strip_html_def Let_def re_sub_def no_tag_strip no_tag_after_whitespace no_tag_after_tags)

theorem strip_html_counterexample:
  "fst (strip_html ''a > b < c'') = ''a > b < c'' \<and>
   CHR ''<'' \<in> set (fst (strip_html ''a > b < c'')) \<and>
   CHR ''>'' \<in> set (fst (strip_html ''a > b < c''))"
  by (simp add: strip_html_eval del: re_scan.simps(2))

text \<open>
  Claim C2, amended. \<open>strip_html\<close> is a total function of the HTML text: none of its
  operations raises on a string, well-formed markup or not. The text component of its
  result contains no complete tag: if \<open><\<close> occurs in it with \<open>>\<close> somewhere after it, then
  either nothing lies between the two or another \<open>>\<close> does.
\<close>

theorem strip_html_no_tag:
  "fst (strip_html html_content) = a @ ''<'' @ m @ ''>'' @ b \<longrightarrow> m = [] \<or> CHR ''>'' \<in> set m"
proof
  assume "fst (strip_html html_content) = a @ ''<'' @ m @ ''>'' @ b"
  then have "no_tag (a @ ''<'' @ m @ ''>'' @ b)" using no_tag_text [of html_content] by simp
  then have "no_tag (''<'' @ m @ ''>'' @ b)" by (rule no_tag_suffix)
  then show "m = [] \<or> CHR ''>'' \<in> set m" by (cases m) auto
qed

theorem strip_html_no_tag_witness:
  "fst (strip_html ''<p>x <> y</p>'') = ''x '' @ ''<'' @ [] @ ''>'' @ '' y'' \<and>
   (([] :: string) = [] \<or> CHR ''>'' \<in> set [])"
proof -
  have "fst (strip_html ''<p>x <> y</p>'') = ''x '' @ ''<'' @ [] @ ''>'' @ '' y''"
    by (simp add: strip_html_eval del: re_scan.simps(2))
  then show ?thesis
    using strip_html_no_tag [of "''<p>x <> y</p>''" "''x ''" "[]" "'' y''"] by blast
qed

section \<open>The paragraph count\<close>

lemma only_blanks_after_whitespace:
  "c \<in> set (substitute '' '' (re_scan whitespace_pattern prev s)) \<Longrightarrow> isspace c \<Longrightarrow> c = CHR '' ''"
proof (induction "length s" arbitrary: s prev rule: less_induct)
  case less
  show ?case
  proof (cases s)
    case Nil
    then show ?thesis using less.prems by simp
  next
    case (Cons x xs)
    show ?thesis
    proof (cases "isspace x")
      case True
      have "length (dropWhile isspace xs) < length s"
        using Cons by (simp add: le_imp_less_Suc length_dropWhile_le)
      from less.hyps [OF this] show ?thesis
        using less.prems Cons True by (auto simp add: scan_whitespace_Cons simp del: re_scan.simps)
    next
      case False
      then show ?thesis
        using less.hyps [of xs "Some x"] less.prems Cons
        by (auto simp add: scan_whitespace_Cons simp del: re_scan.simps)
    qed
  qed
qed

lemma set_strip: "set (strip s) \<subseteq> set s"
proof -
  obtain a b where "s = a @ strip s @ b" using strip_prefix_suffix by blast
  then have "set s = set a \<union> set (strip s) \<union> set b" by (metis set_append Un_assoc)
  then show ?thesis by blast
qed

lemma strip_strip: "strip (strip s) = strip s"
proof -
  let ?v = "dropWhile isspace s"
  let ?w = "strip s"
  have rw: "rev ?w = dropWhile isspace (rev ?v)" by (simp add: strip_def)
  have rear: "dropWhile isspace (rev ?w) = rev ?w" by (simp add: rw)
  have v: "?v = ?w @ rev (takeWhile isspace (rev ?v))"
    by (metis rev_append rev_rev_ident takeWhile_dropWhile_id strip_def)
  have front: "dropWhile isspace ?w = ?w"
  proof (cases "?w = []")
    case True
    then show ?thesis by simp
  next
    case False
    then have "hd ?v = hd ?w" using v by (metis hd_append2)
    moreover have "?v \<noteq> []" using False v by (metis append_is_Nil_conv)
    then have "\<not> isspace (hd ?v)" by (rule hd_dropWhile)
    ultimately show ?thesis using dropWhile_stays [of ?w isspace] by simp
  qed
  have "strip ?w = rev (dropWhile isspace (rev (dropWhile isspace ?w)))" by (simp add: strip_def)
  also have "\<dots> = rev (rev ?w)" by (simp only: front rear)
  finally show ?thesis by simp
qed

lemma match_paragraph_pattern_None:
  "s = [] \<or> hd s \<noteq> CHR 0x0A \<Longrightarrow> match_here paragraph_pattern prev s = None"
  by (cases s) (auto simp: paragraph_pattern_def match_One)

lemma scan_paragraph_pattern:
  "CHR 0x0A \<notin> set s \<Longrightarrow> re_scan paragraph_pattern prev s = map Chr s"
  by (induction s arbitrary: prev) (auto simp: match_paragraph_pattern_None)

lemma split_pieces_Chr: "split_pieces (map Chr s) = [s]"
  by (induction s) auto

lemma no_newline_text: "CHR 0x0A \<notin> set (fst (strip_html html_content))"
proof
  let ?t = "re_sub tag_pattern '' '' (re_sub style_pattern [] (re_sub script_pattern [] html_content))"
  assume "CHR 0x0A \<in> set (fst (strip_html html_content))"
  then have "CHR 0x0A \<in> set (strip (re_sub whitespace_pattern '' '' ?t))"
    by (simp add: strip_html_def Let_def)
  then have "CHR 0x0A \<in> set (substitute '' '' (re_scan whitespace_pattern None ?t))"
    using set_strip by (auto simp: re_sub_def)
  then have "CHR 0x0A = CHR '' ''"
    by (rule only_blanks_after_whitespace) simp
  then show False by simp
qed

lemma strip_text: "strip (fst (strip_html html_content)) = fst (strip_html html_content)"
  by (simp add: strip_html_def Let_def strip_strip)

text \<open>
  Claim C10. For every HTML input, the paragraph count that \<open>count_statistics\<close> computes
  from the text of \<open>strip_html\<close> is 1 when that text is not empty and 0 when it is empty:
  \<open>strip_html\<close> turns every run of white space, newlines included, into one space, so
  the text has no newline for the paragraph pattern to match.
\<close>

theorem paragraph_count_at_most_one:
  "st_paragraph_count (count_statistics (fst (strip_html html_content))) =
     (if fst (strip_html html_content) = [] then 0 else 1)"
  by (simp add: count_statistics_def Let_def re_split_def scan_paragraph_pattern
      no_newline_text split_pieces_Chr strip_text)

theorem paragraph_count_at_most_one_witness:
  "fst (strip_html (''<p>One.</p>'' @ [CHR 0x0A, CHR 0x0A] @ ''<p>Two.</p>'')) = ''One. Two.'' \<and>
   st_paragraph_count (count_statistics
     (fst (strip_html (''<p>One.</p>'' @ [CHR 0x0A, CHR 0x0A] @ ''<p>Two.</p>'')))) = 1 \<and>
   st_paragraph_count (count_statistics (fst (strip_html ''<br>''))) = 0"
proof -
  have "fst (strip_html (''<p>One.</p>'' @ [CHR 0x0A, CHR 0x0A] @ ''<p>Two.</p>'')) = ''One. Two.''"
    and "fst (strip_html ''<br>'') = []"
    by (simp_all add: strip_html_eval del: re_scan.simps(2))
  then show ?thesis
    using paragraph_count_at_most_one [of "''<p>One.</p>'' @ [CHR 0x0A, CHR 0x0A] @ ''<p>Two.</p>''"]
      paragraph_count_at_most_one [of "''<br>''"]
    by simp
qed

section \<open>The processor's loop\<close>

lemma poll_now: "exists w \<Longrightarrow> poll exists w = Some w"
  by (subst poll.simps) simp











section \<open>Failures of single documents\<close>






section \<open>No successful item\<close>

text \<open>
  Claim C9. When the completion record of the fetch stage lists no success, the processor
  returns without raising and has written a completion record with no item and the
  counts 0 (provided the record can be written at all). When the completion record of
  the processor lists no success, the analyzer returns without raising and leaves the
  storage area as it found it: it writes no report.
\<close>

theorem nothing_to_do:
  "(fetch_complete w = Some fetch_results \<and> successful_fetches fetch_results = [] \<and>
    \<not> status_write_fails w \<longrightarrow>
    processor_main w = Some (Inr (w\<lparr>process_complete := Some
      \<lparr>ps_timestamp = clock w, ps_files_processed = 0, ps_successful = 0, ps_failed = 0,
       ps_results = []\<rparr>\<rparr>))) \<and>
   (process_complete w = Some st \<and> successful_items st = [] \<longrightarrow>
    analyzer_main w = Some (Inr w))"
proof (intro conjI impI)
  assume a: "fetch_complete w = Some fetch_results \<and> successful_fetches fetch_results = [] \<and>
    \<not> status_write_fails w"
  then have p: "poll (\<lambda>w. fetch_complete w \<noteq> None) w = Some w"
    by (intro poll_now) simp
  show "processor_main w = Some (Inr (w\<lparr>process_complete := Some
      \<lparr>ps_timestamp = clock w, ps_files_processed = 0, ps_successful = 0, ps_failed = 0,
       ps_results = []\<rparr>\<rparr>))"
    unfolding processor_main_def p using a
    by (simp add: Let_def successful_fetches_def)
next
  assume a: "process_complete w = Some st \<and> successful_items st = []"
  then have p: "poll (\<lambda>w. process_complete w \<noteq> None) w = Some w"
    by (intro poll_now) simp
  show "analyzer_main w = Some (Inr w)"
    unfolding analyzer_main_def p using a
    by (simp add: Let_def successful_items_def)
qed

theorem nothing_to_do_witness:
  "processor_main nothing_fetched_world = Some (Inr (nothing_fetched_world\<lparr>process_complete := Some
      \<lparr>ps_timestamp = clock nothing_fetched_world, ps_files_processed = 0, ps_successful = 0,
       ps_failed = 0, ps_results = []\<rparr>\<rparr>)) \<and>
   analyzer_main nothing_fetched_world = Some (Inr nothing_fetched_world) \<and>
   report nothing_fetched_world = None"
proof -
  let ?fetched = "[\<lparr>fetch_file = ''a.html'', fetch_status = ''failed''\<rparr>]"
  let ?st = "\<lparr>ps_timestamp = ''2024-01-01T00:00:00+00:00'', ps_files_processed = 1,
         ps_successful = 0, ps_failed = 1,
         ps_results = [\<lparr>res_source_file = ''a.html'', res_output_file = ''a.json'',
                        res_status = ''failed'', res_counts = None\<rparr>]\<rparr>"
  have "fetch_complete nothing_fetched_world = Some ?fetched \<and> successful_fetches ?fetched = [] \<and>
      \<not> status_write_fails nothing_fetched_world"
    by (simp add: nothing_fetched_world_def quiet_world_def successful_fetches_def)
  moreover have "process_complete nothing_fetched_world = Some ?st \<and> successful_items ?st = []"
    by (simp add: nothing_fetched_world_def quiet_world_def successful_items_def)
  moreover have "report nothing_fetched_world = None"
    by (simp add: nothing_fetched_world_def quiet_world_def)
  ultimately show ?thesis
    using nothing_to_do [of nothing_fetched_world ?fetched ?st] by blast
qed

section \<open>Output files\<close>

lemma complete_at_process_complete [simp]:
  "complete_at (w\<lparr>process_complete := x\<rparr>) name = complete_at w name"
  by (simp add: complete_at_def)









section \<open>Pairs of documents\<close>

lemma analyze_loop_documents:
  "map dd_filename (cd_documents_data (analyze_loop w files acc)) =
     map dd_filename (cd_documents_data acc) @
     map res_output_file (filter (\<lambda>r. res_status r = ''success'' \<and> loads w r) files)"
proof (induction files arbitrary: acc)
  case Nil
  then show ?case by simp
next
  case (Cons r rest)
  show ?case
    by (simp add: Cons.IH loads_def Let_def split: option.splits processed_file.splits)
qed

lemma analyze_corpus_documents:
  "map dd_filename (cd_documents_data (analyze_corpus w (successful_items st))) =
     map res_output_file (filter (loads w) (successful_items st))"
proof -
  have "filter (\<lambda>r. res_status r = ''success'' \<and> loads w r) (successful_items st) =
      filter (loads w) (successful_items st)"
    by (auto simp: successful_items_def intro: filter_cong)
  then show ?thesis
    by (simp add: analyze_corpus_def analyze_loop_documents)
qed

lemma index_pairs_bounds: "(i, j) \<in> set (index_pairs n) \<Longrightarrow> i < j \<and> j < n"
  by (auto simp: index_pairs_def)

lemma sum_list_Suc: "sum_list (map (\<lambda>i. Suc (f i)) xs) = sum_list (map f xs) + length xs"
  by (induction xs) auto

lemma sum_below: "2 * sum_list (map (\<lambda>i. n - Suc i) [0 ..< n]) = n * (n - 1)"
proof (induction n)
  case 0
  then show ?case by simp
next
  case (Suc n)
  have eq: "map (\<lambda>i. Suc n - Suc i) [0 ..< n] = map (\<lambda>i. Suc (n - Suc i)) [0 ..< n]"
    by (rule map_cong) auto
  have "[0 ..< Suc n] = [0 ..< n] @ [n]" by simp
  then have "sum_list (map (\<lambda>i. Suc n - Suc i) [0 ..< Suc n]) =
      sum_list (map (\<lambda>i. Suc n - Suc i) [0 ..< n]) + (Suc n - Suc n)"
    by (simp only: map_append sum_list_append list.map sum_list.Cons sum_list.Nil add_0_right)
  also have "\<dots> = sum_list (map (\<lambda>i. Suc (n - Suc i)) [0 ..< n])"
    by (simp only: eq diff_self_eq_0 add_0_right)
  also have "\<dots> = sum_list (map (\<lambda>i. n - Suc i) [0 ..< n]) + n"
    by (simp only: sum_list_Suc length_upt diff_zero)
  finally have "sum_list (map (\<lambda>i. Suc n - Suc i) [0 ..< Suc n]) =
      sum_list (map (\<lambda>i. n - Suc i) [0 ..< n]) + n" .
  then have "2 * sum_list (map (\<lambda>i. Suc n - Suc i) [0 ..< Suc n]) = n * (n - 1) + 2 * n"
    using Suc by (simp only: distrib_left)
  also have "\<dots> = Suc n * (Suc n - 1)"
    by (cases n) (simp_all add: algebra_simps)
  finally show ?case .
qed

lemma length_index_pairs: "length (index_pairs n) = n * (n - 1) div 2"
proof -
  have "length (index_pairs n) = sum_list (map (\<lambda>i. n - Suc i) [0 ..< n])"
    by (simp add: index_pairs_def length_concat comp_def)
  then show ?thesis using sum_below [of n] by simp
qed

lemma similarities_pairs:
  "map (\<lambda>e. (sim_doc1 e, sim_doc2 e)) (calculate_document_similarities docs) =
     map (\<lambda>(i, j). (map dd_filename docs ! i, map dd_filename docs ! j))
       (index_pairs (length docs))"
proof -
  have "map (\<lambda>e. (sim_doc1 e, sim_doc2 e)) (calculate_document_similarities docs) =
      map (\<lambda>(i, j). (dd_filename (docs ! i), dd_filename (docs ! j))) (index_pairs (length docs))"
    by (simp add: calculate_document_similarities_def index_pairs_def map_concat comp_def)
  also have "\<dots> = map (\<lambda>(i, j). (map dd_filename docs ! i, map dd_filename docs ! j))
       (index_pairs (length docs))"
    by (rule map_cong) (auto dest: index_pairs_bounds)
  finally show ?thesis .
qed

lemma length_similarities:
  "length (calculate_document_similarities docs) = length docs * (length docs - 1) div 2"
  using arg_cong [OF similarities_pairs [of docs], of length] by (simp add: length_index_pairs)

lemma analyzer_main_report:
  assumes "process_complete w = Some st" and "successful_items st \<noteq> []"
    and "\<not> report_write_fails w"
  shows "\<exists>rep. analyzer_main w = Some (Inr (w\<lparr>report := Some rep\<rparr>)) \<and>
     rep_documents_processed rep = length (successful_items st) \<and>
     rep_document_similarity rep =
       calculate_document_similarities (cd_documents_data (analyze_corpus w (successful_items st)))"
proof -
  have p: "poll (\<lambda>w. process_complete w \<noteq> None) w = Some w"
    using assms(1) by (intro poll_now) simp
  show ?thesis
    unfolding analyzer_main_def p using assms
    apply (simp add: Let_def successful_items_def)
    apply (rule exI, rule conjI, rule refl)
    apply simp
    done
qed

text \<open>
  A completion record with three success items, of which one has no output file: the
  report has one similarity entry, not three.
\<close>

theorem similarity_entries_counterexample:
  "process_complete missing_document_world = Some missing_document_record \<and>
   length (successful_items missing_document_record) = 3 \<and>
   similarity_count (analyzer_main missing_document_world) = Some 1"
proof -
  have p: "poll (\<lambda>w. process_complete w \<noteq> None) missing_document_world = Some missing_document_world"
    by (intro poll_now) (simp add: missing_document_world_def)
  have "similarity_count (analyzer_main missing_document_world) = Some 1"
    unfolding analyzer_main_def p
    by (simp add: missing_document_world_def missing_document_record_def quiet_world_def
        similarity_count_def analyze_corpus_def calculate_document_similarities_def Let_def)
  then show ?thesis
    by (simp add: missing_document_world_def missing_document_record_def successful_items_def)
qed

text \<open>
  Claim C4, amended. Let the completion record of the processor list \<open>n\<close> success items,
  and let \<open>m\<close> of them have an output file that the analyzer can open and parse. Then
  the \<open>document_similarity\<close> sequence of the final report has exactly \<open>m (m - 1) / 2\<close>
  entries, one for each pair of these \<open>m\<close> documents, in the order of the indices
  \<open>i < j\<close>; it is empty when \<open>m < 2\<close>; and \<open>m = n\<close> when every listed output file can be
  opened and parsed.
\<close>

theorem similarity_entries:
  "process_complete w = Some st \<and> successful_items st \<noteq> [] \<and> \<not> report_write_fails w \<longrightarrow>
   (\<exists>rep names. analyzer_main w = Some (Inr (w\<lparr>report := Some rep\<rparr>)) \<and>
      names = map res_output_file (filter (loads w) (successful_items st)) \<and>
      length (rep_document_similarity rep) = length names * (length names - 1) div 2 \<and>
      map (\<lambda>e. (sim_doc1 e, sim_doc2 e)) (rep_document_similarity rep) =
        map (\<lambda>(i, j). (names ! i, names ! j)) (index_pairs (length names)) \<and>
      (length names < 2 \<longrightarrow> rep_document_similarity rep = []) \<and>
      (list_all (loads w) (successful_items st) \<longrightarrow>
         length names = length (successful_items st)))"
proof
  assume a: "process_complete w = Some st \<and> successful_items st \<noteq> [] \<and> \<not> report_write_fails w"
  let ?docs = "cd_documents_data (analyze_corpus w (successful_items st))"
  define names where "names = map res_output_file (filter (loads w) (successful_items st))"
  from a analyzer_main_report [of w st]
  obtain rep where run: "analyzer_main w = Some (Inr (w\<lparr>report := Some rep\<rparr>))"
    and sim: "rep_document_similarity rep = calculate_document_similarities ?docs"
    by blast
  have names: "map dd_filename ?docs = names"
    unfolding names_def by (rule analyze_corpus_documents)
  then have len: "length ?docs = length names"
    by (metis length_map)
  have count: "length (rep_document_similarity rep) = length names * (length names - 1) div 2"
    unfolding sim length_similarities len ..
  have order: "map (\<lambda>e. (sim_doc1 e, sim_doc2 e)) (rep_document_similarity rep) =
        map (\<lambda>(i, j). (names ! i, names ! j)) (index_pairs (length names))"
    unfolding sim similarities_pairs names len ..
  have few: "rep_document_similarity rep = []" if "length names < 2"
  proof -
    from that have "length names * (length names - 1) div 2 = 0"
      by (cases "length names") auto
    then show ?thesis using count by simp
  qed
  have full: "length names = length (successful_items st)"
    if "list_all (loads w) (successful_items st)"
    using that by (simp add: names_def list_all_iff)
  show "\<exists>rep names. analyzer_main w = Some (Inr (w\<lparr>report := Some rep\<rparr>)) \<and>
      names = map res_output_file (filter (loads w) (successful_items st)) \<and>
      length (rep_document_similarity rep) = length names * (length names - 1) div 2 \<and>
      map (\<lambda>e. (sim_doc1 e, sim_doc2 e)) (rep_document_similarity rep) =
        map (\<lambda>(i, j). (names ! i, names ! j)) (index_pairs (length names)) \<and>
      (length names < 2 \<longrightarrow> rep_document_similarity rep = []) \<and>
      (list_all (loads w) (successful_items st) \<longrightarrow>
         length names = length (successful_items st))"
    using run names_def count order few full by blast
qed

theorem similarity_entries_witness:
  "\<exists>rep. analyzer_main missing_document_world =
       Some (Inr (missing_document_world\<lparr>report := Some rep\<rparr>)) \<and>
     length (rep_document_similarity rep) = 1 \<and>
     map (\<lambda>e. (sim_doc1 e, sim_doc2 e)) (rep_document_similarity rep) = [(''a.json'', ''c.json'')]"
proof -
  have h: "process_complete missing_document_world = Some missing_document_record \<and>
      successful_items missing_document_record \<noteq> [] \<and>
      \<not> report_write_fails missing_document_world"
    by (simp add: missing_document_world_def missing_document_record_def quiet_world_def
        successful_items_def)
  have names: "map res_output_file
        (filter (loads missing_document_world) (successful_items missing_document_record)) =
      [''a.json'', ''c.json'']"
    by (simp add: missing_document_world_def missing_document_record_def quiet_world_def
        successful_items_def loads_def)
  have pairs: "index_pairs (Suc (Suc 0)) = [(0, Suc 0)]"
    by (simp add: index_pairs_def)
  from similarity_entries [of missing_document_world missing_document_record] h
  obtain rep names where
    "analyzer_main missing_document_world = Some (Inr (missing_document_world\<lparr>report := Some rep\<rparr>))"
    "names = map res_output_file
        (filter (loads missing_document_world) (successful_items missing_document_record))"
    "length (rep_document_similarity rep) = length names * (length names - 1) div 2"
    "map (\<lambda>e. (sim_doc1 e, sim_doc2 e)) (rep_document_similarity rep) =
        map (\<lambda>(i, j). (names ! i, names ! j)) (index_pairs (length names))"
    by blast
  then show ?thesis
    unfolding names by (intro exI [of _ rep]) (simp add: pairs)
qed

end
